theory Spec2Isabelle
  imports Main
begin

section \<open>Python strings\<close>

text \<open>
  A Python \<open>str\<close> is a sequence of Unicode code points, so a string is a list of
  natural numbers (the code points), not of bytes: the pattern of \<open>to_snake_case\<close>
  names U+2019, which is one code point and three UTF-8 bytes.  \<open>cps\<close> reads an
  ASCII literal as such a string.
\<close>

type_synonym codepoint = nat
type_synonym pystr = "codepoint list"

definition cps :: "string \<Rightarrow> pystr" where
  "cps s = map of_char s"

definition underscore :: codepoint where
  "underscore = 95"

text \<open>
  \<open>str.strip()\<close> without argument removes leading and trailing whitespace, which for
  a \<open>str\<close> is every code point with \<open>str.isspace()\<close> true.
\<close>

definition is_space :: "codepoint \<Rightarrow> bool" where
  "is_space c = ((9 \<le> c \<and> c \<le> 13) \<or> (28 \<le> c \<and> c \<le> 32) \<or> c = 133 \<or> c = 160
     \<or> c = 5760 \<or> (8192 \<le> c \<and> c \<le> 8202) \<or> c = 8232 \<or> c = 8233 \<or> c = 8239
     \<or> c = 8287 \<or> c = 12288)"

definition strip_chars :: "(codepoint \<Rightarrow> bool) \<Rightarrow> pystr \<Rightarrow> pystr" where
  "strip_chars P s = rev (dropWhile P (rev (dropWhile P s)))"

definition strip :: "pystr \<Rightarrow> pystr" where
  "strip s = strip_chars is_space s"

section \<open>Header normalisation: \<open>to_snake_case\<close>\<close>

text \<open>
  The character class \<open>[\<dots>'",()\[\]{}]\<close> of the first \<open>re.sub\<close>: U+2019 (right single
  quotation mark), apostrophe, quotation mark, comma, parentheses, square brackets
  and braces.  Every match is replaced by the empty string.
\<close>

definition is_removed :: "codepoint \<Rightarrow> bool" where
  "is_removed c = (c = 8217 \<or> c = 39 \<or> c = 34 \<or> c = 44 \<or> c = 40 \<or> c = 41
     \<or> c = 91 \<or> c = 93 \<or> c = 123 \<or> c = 125)"

definition remove_punct :: "pystr \<Rightarrow> pystr" where
  "remove_punct s = filter (\<lambda>c. \<not> is_removed c) s"

text \<open>The class \<open>[a-zA-Z0-9]\<close>: ASCII letters and digits only.\<close>

definition is_digit :: "codepoint \<Rightarrow> bool" where
  "is_digit c = (48 \<le> c \<and> c \<le> 57)"

definition is_upper :: "codepoint \<Rightarrow> bool" where
  "is_upper c = (65 \<le> c \<and> c \<le> 90)"

definition is_lower :: "codepoint \<Rightarrow> bool" where
  "is_lower c = (97 \<le> c \<and> c \<le> 122)"

definition is_alnum :: "codepoint \<Rightarrow> bool" where
  "is_alnum c = (is_lower c \<or> is_upper c \<or> is_digit c)"

text \<open>
  \<open>re.sub(r"[^a-zA-Z0-9]+", "_", name)\<close>: scanning from the left, every maximal run of
  code points outside the class is one match and becomes one underscore.
\<close>

function sub_runs :: "pystr \<Rightarrow> pystr" where
  "sub_runs [] = []"
| "sub_runs (c # cs) =
     (if is_alnum c then c # sub_runs cs
      else underscore # sub_runs (dropWhile (\<lambda>x. \<not> is_alnum x) cs))"
  by pat_completeness auto
termination
  by (relation "measure length") (auto simp: length_dropWhile_le less_Suc_eq_le)

text \<open>
  \<open>str.lower()\<close>.  On a string of ASCII code points it maps \<open>A\<close>..\<open>Z\<close> to \<open>a\<close>..\<open>z\<close>
  and leaves the rest.  On other strings it follows the Unicode case tables, which
  are not part of this program: that part is the parameter \<open>ul\<close>.
\<close>

definition ascii_lower :: "codepoint \<Rightarrow> codepoint" where
  "ascii_lower c = (if is_upper c then c + 32 else c)"

definition lower :: "(pystr \<Rightarrow> pystr) \<Rightarrow> pystr \<Rightarrow> pystr" where
  "lower ul s = (if list_all (\<lambda>c. c < 128) s then map ascii_lower s else ul s)"

definition to_snake_case :: "(pystr \<Rightarrow> pystr) \<Rightarrow> pystr \<Rightarrow> pystr" where
  "to_snake_case ul name =
     (let name1 = strip name;
          name2 = remove_punct name1;
          name3 = sub_runs name2
      in strip_chars (\<lambda>c. c = underscore) (lower ul name3))"


text \<open>
  The shape of a header token: lowercase ASCII letters, digits and underscores, no
  underscore at either end, no two underscores in a row.
\<close>

definition is_token_char :: "codepoint \<Rightarrow> bool" where
  "is_token_char c = (is_lower c \<or> is_digit c \<or> c = underscore)"

fun no_double_underscore :: "pystr \<Rightarrow> bool" where
  "no_double_underscore (a # b # cs) =
     ((a \<noteq> underscore \<or> b \<noteq> underscore) \<and> no_double_underscore (b # cs))"
| "no_double_underscore _ = True"

definition header_token :: "pystr \<Rightarrow> bool" where
  "header_token t =
     (list_all is_token_char t \<and> no_double_underscore t \<and>
      (case t of [] \<Rightarrow> True | c # _ \<Rightarrow> c \<noteq> underscore \<and> last t \<noteq> underscore))"

section \<open>Exceptions and JSON values\<close>

text \<open>
  The exceptions the program can meet, as values.  \<open>HTTPError\<close> and
  \<open>ConnectionError\<close> are those of \<open>requests\<close>, \<open>CsvError\<close> is \<open>csv.Error\<close>,
  \<open>EmptyDataError\<close> is that of \<open>pandas\<close>.  All of them derive from \<open>Exception\<close>.
\<close>

datatype error =
    KeyError | TypeError | ValueError | IndexError | AttributeError
  | ConnectionError | HTTPError | JSONDecodeError | UnicodeDecodeError
  | CsvError | OSError | EmptyDataError

text \<open>
  What \<open>response.json()\<close> returns: \<open>None\<close>, \<open>bool\<close>, \<open>int\<close>, \<open>float\<close>, \<open>str\<close>, \<open>list\<close>
  and \<open>dict\<close> with string keys (a parsed object has each key once).  No operation of
  the program looks inside a float, so it is kept as its literal.
\<close>

datatype json =
    JNull | JBool bool | JInt int | JFloat pystr | JStr pystr
  | JArr "json list" | JObj "(pystr \<times> json) list"

text \<open>\<open>v[key]\<close> for a string key: only a \<open>dict\<close> accepts it.\<close>

fun getitem_key :: "json \<Rightarrow> pystr \<Rightarrow> error + json" where
  "getitem_key (JObj kvs) k = (case map_of kvs k of None \<Rightarrow> Inl KeyError | Some v \<Rightarrow> Inr v)"
| "getitem_key _ k = Inl TypeError"

text \<open>
  \<open>v[0]\<close>: the first element of a list, the first character of a string (as a
  string), a missing key of a \<open>dict\<close> (its keys are strings), and a \<open>TypeError\<close> on
  everything else.
\<close>

fun getitem_0 :: "json \<Rightarrow> error + json" where
  "getitem_0 (JArr xs) = (case xs of [] \<Rightarrow> Inl IndexError | x # _ \<Rightarrow> Inr x)"
| "getitem_0 (JStr s) = (case s of [] \<Rightarrow> Inl IndexError | c # _ \<Rightarrow> Inr (JStr [c]))"
| "getitem_0 (JObj kvs) = Inl KeyError"
| "getitem_0 _ = Inl TypeError"

fun is_substring :: "pystr \<Rightarrow> pystr \<Rightarrow> bool" where
  "is_substring t [] = (t = [])"
| "is_substring t (c # cs) = (take (length t) (c # cs) = t \<or> is_substring t cs)"

text \<open>
  \<open>t in v\<close> for a string \<open>t\<close>: membership in a list (by \<open>==\<close>), substring of a
  string, key of a \<open>dict\<close>; the other values are not iterable.
\<close>

fun contains :: "pystr \<Rightarrow> json \<Rightarrow> error + bool" where
  "contains t (JArr xs) = Inr (JStr t \<in> set xs)"
| "contains t (JStr s) = Inr (is_substring t s)"
| "contains t (JObj kvs) = Inr (t \<in> set (map fst kvs))"
| "contains t _ = Inl TypeError"

text \<open>\<open>for d in v\<close>: the elements of a list, the keys of a \<open>dict\<close>, the characters of a string.\<close>

fun iterate :: "json \<Rightarrow> error + json list" where
  "iterate (JArr xs) = Inr xs"
| "iterate (JObj kvs) = Inr (map (\<lambda>kv. JStr (fst kv)) kvs)"
| "iterate (JStr s) = Inr (map (\<lambda>c. JStr [c]) s)"
| "iterate _ = Inl TypeError"

section \<open>The theme filter\<close>

fun filter_hospital_entries :: "json list \<Rightarrow> error + json list" where
  "filter_hospital_entries [] = Inr []"
| "filter_hospital_entries (d # ds) =
     (case (case getitem_key d (cps ''theme'') of
              Inl e \<Rightarrow> Inl e
            | Inr v \<Rightarrow> contains (cps ''Hospitals'') v) of
        Inl e \<Rightarrow>
          (if e = KeyError \<or> e = TypeError then filter_hospital_entries ds else Inl e)
      | Inr b \<Rightarrow>
          (case filter_hospital_entries ds of
             Inl e \<Rightarrow> Inl e
           | Inr hospital_datasets \<Rightarrow> Inr (if b then d # hospital_datasets else hospital_datasets)))"

section \<open>Timestamps and the recency filter\<close>

text \<open>
  A \<open>datetime\<close>: its wall-clock reading in microseconds since 1970-01-01T00:00:00,
  and its UTC offset in microseconds when it is timezone-aware (\<open>None\<close> when naive).
  Ordering two of them raises \<open>TypeError\<close> when exactly one is aware.
\<close>

record datetime =
  micros :: int
  utcoffset :: "int option"

definition dt_gt :: "datetime \<Rightarrow> datetime \<Rightarrow> error + bool" where
  "dt_gt a b =
     (case (utcoffset a, utcoffset b) of
        (None, None) \<Rightarrow> Inr (micros a > micros b)
      | (Some oa, Some ob) \<Rightarrow> Inr (micros a - oa > micros b - ob)
      | _ \<Rightarrow> Inl TypeError)"

text \<open>Days from 1970-01-01 to a date of the proleptic Gregorian calendar.\<close>

definition days_from_civil :: "int \<Rightarrow> int \<Rightarrow> int \<Rightarrow> int" where
  "days_from_civil y m d =
     (let y1 = (if m \<le> 2 then y - 1 else y);
          era = y1 div 400;
          yoe = y1 - era * 400;
          doy = (153 * (if m > 2 then m - 3 else m + 9) + 2) div 5 + d - 1;
          doe = yoe * 365 + yoe div 4 - yoe div 100 + doy
      in era * 146097 + doe - 719468)"

definition day_micros :: int where
  "day_micros = 86400000000"

text \<open>\<open>datetime(y, m, d)\<close>: naive, at midnight.\<close>

definition datetime_ymd :: "int \<Rightarrow> int \<Rightarrow> int \<Rightarrow> datetime" where
  "datetime_ymd y m d = \<lparr>micros = days_from_civil y m d * day_micros, utcoffset = None\<rparr>"

text \<open>
  \<open>datetime.fromisoformat\<close> belongs to the standard library; its parser is the
  parameter \<open>parse\<close>, \<open>None\<close> standing for its \<open>ValueError\<close>.  An argument that is not a
  \<open>str\<close> is a \<open>TypeError\<close>.
\<close>

definition fromisoformat :: "(pystr \<Rightarrow> datetime option) \<Rightarrow> json \<Rightarrow> error + datetime" where
  "fromisoformat parse v =
     (case v of
        JStr s \<Rightarrow> (case parse s of None \<Rightarrow> Inl ValueError | Some dt \<Rightarrow> Inr dt)
      | _ \<Rightarrow> Inl TypeError)"

fun filter_modified_entries ::
  "(pystr \<Rightarrow> datetime option) \<Rightarrow> json list \<Rightarrow> datetime \<Rightarrow> error + json list" where
  "filter_modified_entries parse [] last_run_date = Inr []"
| "filter_modified_entries parse (d # ds) last_run_date =
     (case (case getitem_key d (cps ''modified'') of
              Inl e \<Rightarrow> Inl e
            | Inr v \<Rightarrow> fromisoformat parse v) of
        Inl e \<Rightarrow>
          (if e = KeyError \<or> e = TypeError \<or> e = ValueError
           then filter_modified_entries parse ds last_run_date else Inl e)
      | Inr mod_dt \<Rightarrow>
          (case dt_gt mod_dt last_run_date of
             Inl e \<Rightarrow> Inl e
           | Inr b \<Rightarrow>
               (case filter_modified_entries parse ds last_run_date of
                  Inl e \<Rightarrow> Inl e
                | Inr modified_datasets \<Rightarrow>
                    Inr (if b then d # modified_datasets else modified_datasets))))"


section \<open>The run ledger\<close>

text \<open>
  The ledger is the file \<open>run_list.csv\<close>.  It is modelled by its header line (the
  column names, empty when the file has no line at all or was started without one)
  and its data rows; \<open>None\<close> is the file that does not exist.  The text encoding of a
  row is that of \<open>csv\<close> and \<open>pandas\<close> and is not modelled: a row is kept as what
  \<open>read_csv(\<dots>, parse_dates=["run_date"])\<close> reads from it, the timestamp of its
  \<open>run_date\<close> cell in microseconds (\<open>None\<close> for an empty cell, \<open>NaT\<close>) and its count.
  A date written by \<open>strftime("%Y-%m-%d")\<close> is read back as that day at midnight, as
  \<open>pandas\<close> does for the dates it can represent.
\<close>

record run_record =
  date_cell :: "int option"
  count_cell :: int

record ledger_file =
  header_line :: "pystr list"
  records :: "run_record list"

type_synonym ledger_store = "ledger_file option"

text \<open>
  The \<open>run_date\<close> column of the frame.  \<open>pandas\<close> raises \<open>EmptyDataError\<close> on a file
  without any line and \<open>ValueError\<close> when the column named in \<open>parse_dates\<close> is not
  in the header.
\<close>

definition read_csv :: "ledger_file \<Rightarrow> error + int option list" where
  "read_csv f =
     (if header_line f = [] then (if records f = [] then Inl EmptyDataError else Inl ValueError)
      else if cps ''run_date'' \<notin> set (header_line f) then Inl ValueError
      else Inr (map date_cell (records f)))"

text \<open>\<open>Series.max()\<close> skips \<open>NaT\<close> and is \<open>NaT\<close> when nothing is left.\<close>

definition series_max :: "int option list \<Rightarrow> int option" where
  "series_max col =
     (case List.map_filter (\<lambda>x. x) col of [] \<Rightarrow> None | v # vs \<Rightarrow> Some (fold max vs v))"

definition get_last_run_date :: "ledger_store \<Rightarrow> ledger_store \<times> (error + datetime)" where
  "get_last_run_date st =
     (let f = (case st of
                 None \<Rightarrow> \<lparr>header_line = [cps ''run_date'', cps ''processed_count''], records = []\<rparr>
               | Some f0 \<Rightarrow> f0)
      in (Some f,
          case read_csv f of
            Inl e \<Rightarrow> Inl e
          | Inr df \<Rightarrow>
              Inr (case series_max df of
                     None \<Rightarrow> datetime_ymd 1900 1 1
                   | Some max_date \<Rightarrow> \<lparr>micros = max_date, utcoffset = None\<rparr>)))"

text \<open>\<open>strftime("%Y-%m-%d")\<close> keeps the day of a timestamp and drops its time.\<close>

definition date_of :: "datetime \<Rightarrow> int" where
  "date_of dt = micros dt div day_micros"

definition update_run_metadata :: "datetime \<Rightarrow> int \<Rightarrow> ledger_store \<Rightarrow> ledger_store" where
  "update_run_metadata run_date processed_count st =
     (let new_row = \<lparr>date_cell = Some (date_of run_date * day_micros),
                      count_cell = processed_count\<rparr>
      in case st of
           None \<Rightarrow> Some \<lparr>header_line = [], records = [new_row]\<rparr>
         | Some f \<Rightarrow> Some (f\<lparr>records := records f @ [new_row]\<rparr>))"

section \<open>Reading and writing CSV text\<close>

text \<open>
  \<open>csv.reader\<close> and \<open>csv.writer\<close> with the default dialect: delimiter \<open>,\<close>, quote
  character \<open>"\<close> doubled inside a quoted field, minimal quoting, line terminator
  \<open>\r\n\<close>, no escape character, not strict.  The reader is the automaton of the
  standard library (its states keep their names), as of Python 3.11, where a NUL
  character is an ordinary character; the states that only an escape character
  reaches are left out.  The reader refuses a field of more than 131072 characters.
\<close>

definition comma :: codepoint where "comma = 44"
definition dquote :: codepoint where "dquote = 34"
definition CR :: codepoint where "CR = 13"
definition LF :: codepoint where "LF = 10"

text \<open>
  Iterating \<open>io.StringIO(csv_text)\<close> yields the lines of the text, each with its
  terminating \<open>\n\<close> (the last one possibly without); \<open>\r\<close> does not end a line.
\<close>

fun split_lines :: "pystr \<Rightarrow> pystr list" where
  "split_lines [] = []"
| "split_lines (c # cs) =
     (if c = LF then [c] # split_lines cs
      else (case split_lines cs of [] \<Rightarrow> [[c]] | l # ls \<Rightarrow> (c # l) # ls))"

datatype pstate =
  START_RECORD | START_FIELD | IN_FIELD | IN_QUOTED_FIELD | QUOTE_IN_QUOTED_FIELD | EAT_CRNL

record parser =
  state :: pstate
  field_buf :: pystr
  field_list :: "pystr list"

definition field_limit :: nat where
  "field_limit = 131072"

definition parse_reset :: parser where
  "parse_reset = \<lparr>state = START_RECORD, field_buf = [], field_list = []\<rparr>"

definition parse_save_field :: "parser \<Rightarrow> parser" where
  "parse_save_field p = p\<lparr>field_list := field_list p @ [field_buf p], field_buf := []\<rparr>"

definition parse_add_char :: "parser \<Rightarrow> codepoint \<Rightarrow> error + parser" where
  "parse_add_char p c =
     (if length (field_buf p) \<ge> field_limit then Inl CsvError
      else Inr (p\<lparr>field_buf := field_buf p @ [c]\<rparr>))"

definition set_state :: "pstate \<Rightarrow> error + parser \<Rightarrow> error + parser" where
  "set_state s r = (case r of Inl e \<Rightarrow> Inl e | Inr p \<Rightarrow> Inr (p\<lparr>state := s\<rparr>))"

text \<open>
  One step of the reader's automaton; the character \<open>None\<close> is the end-of-line mark
  the reader feeds after each line.
\<close>

definition start_field :: "parser \<Rightarrow> codepoint option \<Rightarrow> error + parser" where
  "start_field p c =
     (case c of
        None \<Rightarrow> Inr ((parse_save_field p)\<lparr>state := START_RECORD\<rparr>)
      | Some x \<Rightarrow>
          if x = LF \<or> x = CR then Inr ((parse_save_field p)\<lparr>state := EAT_CRNL\<rparr>)
          else if x = dquote then Inr (p\<lparr>state := IN_QUOTED_FIELD\<rparr>)
          else if x = comma then Inr (parse_save_field p)
          else set_state IN_FIELD (parse_add_char p x))"

definition parse_process_char :: "parser \<Rightarrow> codepoint option \<Rightarrow> error + parser" where
  "parse_process_char p c =
     (case state p of
        START_RECORD \<Rightarrow>
          (case c of
             None \<Rightarrow> Inr p
           | Some x \<Rightarrow>
               if x = LF \<or> x = CR then Inr (p\<lparr>state := EAT_CRNL\<rparr>)
               else start_field (p\<lparr>state := START_FIELD\<rparr>) c)
      | START_FIELD \<Rightarrow> start_field p c
      | IN_FIELD \<Rightarrow>
          (case c of
             None \<Rightarrow> Inr ((parse_save_field p)\<lparr>state := START_RECORD\<rparr>)
           | Some x \<Rightarrow>
               if x = LF \<or> x = CR then Inr ((parse_save_field p)\<lparr>state := EAT_CRNL\<rparr>)
               else if x = comma then Inr ((parse_save_field p)\<lparr>state := START_FIELD\<rparr>)
               else parse_add_char p x)
      | IN_QUOTED_FIELD \<Rightarrow>
          (case c of
             None \<Rightarrow> Inr p
           | Some x \<Rightarrow>
               if x = dquote then Inr (p\<lparr>state := QUOTE_IN_QUOTED_FIELD\<rparr>)
               else parse_add_char p x)
      | QUOTE_IN_QUOTED_FIELD \<Rightarrow>
          (case c of
             None \<Rightarrow> Inr ((parse_save_field p)\<lparr>state := START_RECORD\<rparr>)
           | Some x \<Rightarrow>
               if x = dquote then set_state IN_QUOTED_FIELD (parse_add_char p x)
               else if x = comma then Inr ((parse_save_field p)\<lparr>state := START_FIELD\<rparr>)
               else if x = LF \<or> x = CR then Inr ((parse_save_field p)\<lparr>state := EAT_CRNL\<rparr>)
               else set_state IN_FIELD (parse_add_char p x))
      | EAT_CRNL \<Rightarrow>
          (case c of
             None \<Rightarrow> Inr (p\<lparr>state := START_RECORD\<rparr>)
           | Some x \<Rightarrow> if x = LF \<or> x = CR then Inr p else Inl CsvError))"

fun feed :: "parser \<Rightarrow> pystr \<Rightarrow> error + parser" where
  "feed p [] = Inr p"
| "feed p (c # cs) =
     (case parse_process_char p (Some c) of Inl e \<Rightarrow> Inl e | Inr p1 \<Rightarrow> feed p1 cs)"

text \<open>
  \<open>list(reader)\<close>: the reader takes lines until its automaton is back at the start of
  a record, and that is one row; then it starts afresh.  When the lines end inside a
  quoted field (or with characters pending) the row so far is still returned.  An
  error anywhere is the error of the whole call.
\<close>

fun read_rows :: "parser \<Rightarrow> pystr list \<Rightarrow> error + pystr list list" where
  "read_rows p [] =
     (if field_buf p \<noteq> [] \<or> state p = IN_QUOTED_FIELD
      then Inr [field_list (parse_save_field p)] else Inr [])"
| "read_rows p (l # ls) =
     (case feed p l of
        Inl e \<Rightarrow> Inl e
      | Inr p1 \<Rightarrow>
          (case parse_process_char p1 None of
             Inl e \<Rightarrow> Inl e
           | Inr p2 \<Rightarrow>
               if state p2 \<noteq> START_RECORD then read_rows p2 ls
               else (case read_rows parse_reset ls of
                       Inl e \<Rightarrow> Inl e
                     | Inr rs \<Rightarrow> Inr (field_list p2 # rs))))"

definition csv_reader :: "pystr \<Rightarrow> error + pystr list list" where
  "csv_reader csv_text = read_rows parse_reset (split_lines csv_text)"

text \<open>
  The writer quotes a field that holds the delimiter, the quote character or a
  character of the line terminator, doubling each quote character inside; a row
  made of one empty field is written as \<open>""\<close>.
\<close>

definition needs_quote :: "codepoint \<Rightarrow> bool" where
  "needs_quote c = (c = comma \<or> c = dquote \<or> c = CR \<or> c = LF)"

definition join_field :: "pystr \<Rightarrow> pystr" where
  "join_field f =
     (let body = concat (map (\<lambda>c. if c = dquote then [dquote, dquote] else [c]) f)
      in if list_ex needs_quote f then dquote # body @ [dquote] else body)"

fun join_fields :: "pystr list \<Rightarrow> pystr" where
  "join_fields [] = []"
| "join_fields [f] = join_field f"
| "join_fields (f # fs) = join_field f @ comma # join_fields fs"

definition writerow :: "pystr list \<Rightarrow> pystr" where
  "writerow row = (if row = [[]] then [dquote, dquote] else join_fields row) @ [CR, LF]"

definition writerows :: "pystr list list \<Rightarrow> pystr" where
  "writerows rs = concat (map writerow rs)"


section \<open>What the program does not own\<close>

text \<open>
  The network, the Unicode tables, the date parser, the file system, the clock and
  the scheduler are outside the program.  Each one is a field of the environment:
  \<^item> \<open>unicode_lower\<close>: \<open>str.lower()\<close> on strings that are not all ASCII;
  \<^item> \<open>parse_iso\<close>: the parser of \<open>datetime.fromisoformat\<close>;
  \<^item> \<open>fetch_json\<close>: \<open>requests.get(url).json()\<close>, the parsed body or the exception;
  \<^item> \<open>http_get\<close>: \<open>requests.get(url)\<close>, the response or the exception;
  \<^item> \<open>decode_utf8\<close>: \<open>bytes.decode("utf-8")\<close>, \<open>None\<close> for \<open>UnicodeDecodeError\<close>;
  \<^item> \<open>can_open\<close>: whether a file of that name can be opened for writing in the
    output directory;
  \<^item> \<open>today\<close>: \<open>datetime.today()\<close>;
  \<^item> \<open>completion\<close>: the order in which the pool finishes its tasks.
\<close>

record response =
  status_code :: nat
  content :: "nat list"

record env =
  unicode_lower :: "pystr \<Rightarrow> pystr"
  parse_iso :: "pystr \<Rightarrow> datetime option"
  fetch_json :: "pystr \<Rightarrow> error + json"
  http_get :: "pystr \<Rightarrow> error + response"
  decode_utf8 :: "nat list \<Rightarrow> pystr option"
  can_open :: "pystr \<Rightarrow> bool"
  today :: datetime
  completion :: "nat list"

definition METASTORE_URL :: pystr where
  "METASTORE_URL = cps ''https://data.cms.gov/provider-data/api/1/metastore/schemas/dataset/items''"

definition get_file_data :: "env \<Rightarrow> pystr \<Rightarrow> error + json" where
  "get_file_data e url = fetch_json e url"

section \<open>One file: \<open>process_file\<close>\<close>

text \<open>\<open>url.rsplit("/", 1)[-1]\<close>: what follows the last \<open>/\<close>, the whole string without one.\<close>

definition last_segment :: "pystr \<Rightarrow> pystr" where
  "last_segment url = rev (takeWhile (\<lambda>c. c \<noteq> 47) (rev url))"

text \<open>\<open>raise_for_status()\<close> raises on the status codes 400 to 599.\<close>

definition raise_for_status :: "response \<Rightarrow> error + unit" where
  "raise_for_status r =
     (if 400 \<le> status_code r \<and> status_code r < 600 then Inl HTTPError else Inr ())"

text \<open>
  The result is the name of the file under \<open>output\<close> and the text written to it (the
  returned message is \<open>File complete:\<close> followed by that path).
\<close>

definition process_file :: "env \<Rightarrow> pystr \<Rightarrow> error + pystr \<times> pystr" where
  "process_file e url =
     (case http_get e url of
        Inl err \<Rightarrow> Inl err
      | Inr resp \<Rightarrow>
     (case raise_for_status resp of
        Inl err \<Rightarrow> Inl err
      | Inr _ \<Rightarrow>
     (case decode_utf8 e (content resp) of
        None \<Rightarrow> Inl UnicodeDecodeError
      | Some csv_text \<Rightarrow>
     (case csv_reader csv_text of
        Inl err \<Rightarrow> Inl err
      | Inr [] \<Rightarrow> Inl IndexError
      | Inr (header # data_rows) \<Rightarrow>
          (let processed_header = map (to_snake_case (unicode_lower e)) header;
               output_path = last_segment url
           in if \<not> can_open e output_path then Inl OSError
              else Inr (output_path, writerow processed_header @ writerows data_rows))))))"

section \<open>The run: \<open>main\<close>\<close>

text \<open>
  What the run leaves behind: the ledger, the files under \<open>output\<close> (name and text,
  the latest first), the printed lines.  Creating the \<open>output\<close> directory is taken to
  succeed.  A task writes its file before its future completes; the model records
  the file when the future is collected, and a task that fails writes none.
\<close>

datatype message =
    Processing int
  | FileComplete pystr
  | ErrorProcessing pystr error
  | NumberAll nat
  | NumberHospital nat
  | NumberModified nat
  | Done int

record world =
  ledger :: ledger_store
  output_files :: "(pystr \<times> pystr) list"
  stdout :: "message list"

definition print :: "message \<Rightarrow> world \<Rightarrow> world" where
  "print m w = w\<lparr>stdout := stdout w @ [m]\<rparr>"

text \<open>\<open>dataset["distribution"][0]["downloadURL"].strip()\<close>; only a \<open>str\<close> has \<open>strip\<close>.\<close>

definition download_url :: "json \<Rightarrow> error + pystr" where
  "download_url dataset =
     (case getitem_key dataset (cps ''distribution'') of
        Inl e \<Rightarrow> Inl e
      | Inr dist \<Rightarrow>
     (case getitem_0 dist of
        Inl e \<Rightarrow> Inl e
      | Inr first \<Rightarrow>
     (case getitem_key first (cps ''downloadURL'') of
        Inl e \<Rightarrow> Inl e
      | Inr (JStr u) \<Rightarrow> Inr (strip u)
      | Inr _ \<Rightarrow> Inl AttributeError)))"

fun build_url_list :: "json list \<Rightarrow> error + pystr list" where
  "build_url_list [] = Inr []"
| "build_url_list (dataset # ds) =
     (case download_url dataset of
        Inl e \<Rightarrow> Inl e
      | Inr url \<Rightarrow>
          (case build_url_list ds of Inl e \<Rightarrow> Inl e | Inr url_list \<Rightarrow> Inr (url # url_list)))"

text \<open>
  \<open>as_completed\<close> yields every submitted future once, in the order the tasks finish.
  The order is not the program's: each number of \<open>completion\<close> picks the next future
  among those still pending.
\<close>

fun as_completed :: "nat list \<Rightarrow> 'a list \<Rightarrow> 'a list" where
  "as_completed cs [] = []"
| "as_completed [] (x # xs) = x # xs"
| "as_completed (c # cs) (x # xs) =
     (let i = c mod length (x # xs)
      in ((x # xs) ! i) # as_completed cs (take i (x # xs) @ drop (Suc i) (x # xs)))"

text \<open>
  The collecting loop.  A future carries the URL it was submitted for and the
  outcome of its task; \<open>future.result()\<close> returns the result or raises the task's
  exception, which \<open>except Exception\<close> catches.
\<close>

fun collect :: "(pystr \<times> (error + pystr \<times> pystr)) list \<Rightarrow> int \<times> world \<Rightarrow> int \<times> world" where
  "collect [] (processed_file_count, w) = (processed_file_count, w)"
| "collect ((file, future) # rest) (processed_file_count, w) =
     (let n = processed_file_count + 1
      in case future of
           Inr (path, text) \<Rightarrow>
             collect rest
               (n, print (FileComplete path) (w\<lparr>output_files := (path, text) # output_files w\<rparr>))
         | Inl e \<Rightarrow> collect rest (n, print (ErrorProcessing file e) w))"

text \<open>The run returns the world it leaves and the exception that ended it, if any.\<close>

definition main :: "env \<Rightarrow> world \<Rightarrow> world \<times> error option" where
  "main e w =
     (case get_last_run_date (ledger w) of (st, r) \<Rightarrow>
     (let w1 = w\<lparr>ledger := st\<rparr> in
     (case r of
        Inl err \<Rightarrow> (w1, Some err)
      | Inr last_run_date \<Rightarrow>
     (let w2 = print (Processing (date_of last_run_date)) w1 in
     (case get_file_data e METASTORE_URL of
        Inl err \<Rightarrow> (w2, Some err)
      | Inr all_datasets \<Rightarrow>
     (case iterate all_datasets of
        Inl err \<Rightarrow> (w2, Some err)
      | Inr items \<Rightarrow>
     (case filter_hospital_entries items of
        Inl err \<Rightarrow> (w2, Some err)
      | Inr hospital_datasets \<Rightarrow>
     (case filter_modified_entries (parse_iso e) hospital_datasets last_run_date of
        Inl err \<Rightarrow> (w2, Some err)
      | Inr modified_datasets \<Rightarrow>
     (case build_url_list modified_datasets of
        Inl err \<Rightarrow> (w2, Some err)
      | Inr url_list \<Rightarrow>
     (case (if length url_list > 0
            then collect
                   (as_completed (completion e) (map (\<lambda>f. (f, process_file e f)) url_list))
                   (0, w2)
            else (0, w2)) of
        (processed_file_count, w3) \<Rightarrow>
     (let w4 = print (NumberModified (length modified_datasets))
                 (print (NumberHospital (length hospital_datasets))
                   (print (NumberAll (length items)) w3));
          w5 = w4\<lparr>ledger := update_run_metadata (today e) processed_file_count (ledger w4)\<rparr>
      in (print (Done processed_file_count) w5, None))))))))))))"

section \<open>What the filters keep\<close>




text \<open>The timestamp a descriptor's \<open>modified\<close> field parses to, if it is a string that parses.\<close>

definition modified_of :: "(pystr \<Rightarrow> datetime option) \<Rightarrow> json \<Rightarrow> datetime option" where
  "modified_of parse d =
     (case d of
        JObj kvs \<Rightarrow> (case map_of kvs (cps ''modified'') of Some (JStr s) \<Rightarrow> parse s | _ \<Rightarrow> None)
      | _ \<Rightarrow> None)"

text \<open>The point in time of a timestamp: its reading less its offset.\<close>

definition instant :: "datetime \<Rightarrow> int" where
  "instant dt = micros dt - (case utcoffset dt of None \<Rightarrow> 0 | Some off \<Rightarrow> off)"

definition modified_after :: "(pystr \<Rightarrow> datetime option) \<Rightarrow> datetime \<Rightarrow> json \<Rightarrow> bool" where
  "modified_after parse cutoff d =
     (case modified_of parse d of None \<Rightarrow> False | Some dt \<Rightarrow> instant dt > instant cutoff)"

text \<open>Two timestamps can be ordered when both are naive or both are aware.\<close>

definition comparable :: "datetime \<Rightarrow> datetime \<Rightarrow> bool" where
  "comparable a b = ((utcoffset a = None) = (utcoffset b = None))"

definition comparable_modified ::
  "(pystr \<Rightarrow> datetime option) \<Rightarrow> datetime \<Rightarrow> json \<Rightarrow> bool" where
  "comparable_modified parse cutoff d =
     (case modified_of parse d of None \<Rightarrow> True | Some dt \<Rightarrow> comparable dt cutoff)"

section \<open>Example inputs\<close>

text \<open>
  What \<open>datetime.fromisoformat\<close> returns on the strings of the examples below, and
  its \<open>ValueError\<close> on the others.
\<close>

definition example_iso :: "pystr \<Rightarrow> datetime option" where
  "example_iso s =
     (if s = cps ''2024-06-01'' then Some (datetime_ymd 2024 6 1)
      else if s = cps ''2024-05-01'' then Some (datetime_ymd 2024 5 1)
      else if s = cps ''2024-06-01T00:00:00.000001''
        then Some \<lparr>micros = days_from_civil 2024 6 1 * day_micros + 1, utcoffset = None\<rparr>
      else if s = cps ''2024-06-01T00:00:00+00:00''
        then Some \<lparr>micros = days_from_civil 2024 6 1 * day_micros, utcoffset = Some 0\<rparr>
      else None)"

definition descriptor :: "json \<Rightarrow> string \<Rightarrow> string \<Rightarrow> json" where
  "descriptor theme modified url =
     JObj [(cps ''theme'', theme), (cps ''modified'', JStr (cps modified)),
           (cps ''distribution'', JArr [JObj [(cps ''downloadURL'', JStr (cps url))]])]"

definition hospitals_theme :: json where
  "hospitals_theme = JArr [JStr (cps ''Hospitals''), JStr (cps ''Quality'')]"

definition string_theme_descriptor :: json where
  "string_theme_descriptor = JObj [(cps ''theme'', JStr (cps ''Rural Hospitals''))]"

definition aware_descriptor :: json where
  "aware_descriptor = JObj [(cps ''modified'', JStr (cps ''2024-06-01T00:00:00+00:00''))]"

definition recency_examples :: "json list" where
  "recency_examples =
     [JObj [(cps ''modified'', JStr (cps ''2024-06-01''))],
      JObj [(cps ''modified'', JStr (cps ''2024-06-01T00:00:00.000001''))],
      JObj [(cps ''theme'', hospitals_theme)],
      JObj [(cps ''modified'', JStr (cps ''yesterday''))],
      JObj [(cps ''modified'', JInt 20240601)],
      JStr (cps ''modified'')]"

text \<open>A ledger file is well formed when its header names the \<open>run_date\<close> column.\<close>

definition well_formed :: "ledger_file \<Rightarrow> bool" where
  "well_formed f = (cps ''run_date'' \<in> set (header_line f))"

text \<open>The run dates of the records, empty cells left out.\<close>

definition run_dates :: "ledger_file \<Rightarrow> int list" where
  "run_dates f = List.map_filter (\<lambda>x. x) (map date_cell (records f))"

definition naive :: "int \<Rightarrow> datetime" where
  "naive m = \<lparr>micros = m, utcoffset = None\<rparr>"

definition ledger_header :: "pystr list" where
  "ledger_header = [cps ''run_date'', cps ''processed_count'']"

definition example_ledger :: ledger_file where
  "example_ledger =
     \<lparr>header_line = ledger_header,
      records = [\<lparr>date_cell = Some (days_from_civil 2024 4 1 * day_micros), count_cell = 7\<rparr>,
                 \<lparr>date_cell = Some (days_from_civil 2024 5 1 * day_micros), count_cell = 0\<rparr>,
                 \<lparr>date_cell = None, count_cell = 2\<rparr>]\<rparr>"

text \<open>
  A catalog of three descriptors: one of another theme, one of the theme
  \<open>Hospitals\<close> modified on the day of the last run, one of the theme \<open>Hospitals\<close>
  modified after it.
\<close>

definition example_catalog :: json where
  "example_catalog =
     JArr [descriptor (JArr [JStr (cps ''Quality'')]) ''2024-06-01'' ''https://x.org/q.csv'',
           descriptor hospitals_theme ''2024-05-01'' ''https://x.org/old.csv'',
           descriptor hospitals_theme ''2024-06-01'' '' https://x.org/new.csv '']"

text \<open>A catalog whose one descriptor has the theme \<open>Hospitals\<close> and a timezone-aware modified value.\<close>

definition aware_catalog :: json where
  "aware_catalog =
     JArr [descriptor hospitals_theme ''2024-06-01T00:00:00+00:00'' ''https://x.org/new.csv'']"

text \<open>A catalog whose one descriptor passes both filters and has no distribution field.\<close>

definition no_distribution_catalog :: json where
  "no_distribution_catalog =
     JArr [JObj [(cps ''theme'', hospitals_theme), (cps ''modified'', JStr (cps ''2024-06-01''))]]"

text \<open>
  An environment around a catalog and a download function: identity for the
  non-ASCII lowercasing, the ASCII part of UTF-8, every non-empty file name
  writable, the clock at 2024-06-02 10:30, tasks finishing in submission order.
\<close>

definition example_env :: "json \<Rightarrow> (pystr \<Rightarrow> error + response) \<Rightarrow> env" where
  "example_env catalog download =
     \<lparr>unicode_lower = (\<lambda>s. s),
      parse_iso = example_iso,
      fetch_json = (\<lambda>url. Inr catalog),
      http_get = download,
      decode_utf8 = (\<lambda>bs. if list_all (\<lambda>b. b < 128) bs then Some bs else None),
      can_open = (\<lambda>name. name \<noteq> []),
      today = naive (days_from_civil 2024 6 2 * day_micros + 37800000000),
      completion = []\<rparr>"

definition unreachable :: "pystr \<Rightarrow> error + response" where
  "unreachable url = Inl ConnectionError"

text \<open>A source file with CRLF line ends whose first data row quotes a field.\<close>

definition quoted_source :: pystr where
  "quoted_source = cps ''A B'' @ [CR, LF] @ [dquote] @ cps ''1'' @ [dquote] @ cps '',2'' @ [CR, LF]"

definition serves :: "pystr \<Rightarrow> pystr \<Rightarrow> error + response" where
  "serves body url = Inr \<lparr>status_code = 200, content = body\<rparr>"

definition example_world :: world where
  "example_world = \<lparr>ledger = Some example_ledger, output_files = [], stdout = []\<rparr>"

definition fresh_world :: world where
  "fresh_world = \<lparr>ledger = None, output_files = [], stdout = []\<rparr>"

text \<open>The text of a file after its first line.\<close>

definition data_text :: "pystr \<Rightarrow> pystr" where
  "data_text t = concat (tl (split_lines t))"

section \<open>The reader as an automaton over one stream\<close>

text \<open>
  The reader sees the characters of each line and an end-of-line mark after it.  For
  a text whose lines all end in \<open>\n\<close> this is the text with a mark after each \<open>\n\<close>.
\<close>

definition events :: "pystr \<Rightarrow> codepoint option list" where
  "events t = concat (map (\<lambda>c. if c = LF then [Some c, None] else [Some c]) t)"

definition line_events :: "pystr list \<Rightarrow> codepoint option list" where
  "line_events ls = concat (map (\<lambda>l. map Some l @ [None]) ls)"

text \<open>The rows read from a stream: a row ends at a mark that leaves the automaton at the start of a record.\<close>

fun run :: "parser \<Rightarrow> codepoint option list \<Rightarrow> error + pystr list list" where
  "run p [] =
     (if field_buf p \<noteq> [] \<or> state p = IN_QUOTED_FIELD
      then Inr [field_list (parse_save_field p)] else Inr [])"
| "run p (ev # evs) =
     (case parse_process_char p ev of
        Inl e \<Rightarrow> Inl e
      | Inr p1 \<Rightarrow>
          if ev = None \<and> state p1 = START_RECORD
          then (case run parse_reset evs of Inl e \<Rightarrow> Inl e | Inr rs \<Rightarrow> Inr (field_list p1 # rs))
          else run p1 evs)"

text \<open>The automaton after a piece of stream that neither fails nor ends a row.\<close>

fun within :: "parser \<Rightarrow> codepoint option list \<Rightarrow> parser option" where
  "within p [] = Some p"
| "within p (ev # evs) =
     (case parse_process_char p ev of
        Inl e \<Rightarrow> None
      | Inr p1 \<Rightarrow> if ev = None \<and> state p1 = START_RECORD then None else within p1 evs)"

abbreviation ps :: "pstate \<Rightarrow> pystr \<Rightarrow> pystr list \<Rightarrow> parser" where
  "ps s b fs \<equiv> \<lparr>state = s, field_buf = b, field_list = fs\<rparr>"

text \<open>Rows whose fields all fit the reader's field limit.\<close>

definition fits :: "pystr \<Rightarrow> bool" where
  "fits f = (length f \<le> field_limit)"

definition rows_fit :: "pystr list list \<Rightarrow> bool" where
  "rows_fit rs = list_all (list_all fits) rs"

definition parser_fits :: "parser \<Rightarrow> bool" where
  "parser_fits p = (fits (field_buf p) \<and> list_all fits (field_list p))"

text \<open>A text is made of whole lines when it is empty or ends in \<open>\n\<close>.\<close>

definition whole_lines :: "pystr \<Rightarrow> bool" where
  "whole_lines t = (case rev t of [] \<Rightarrow> True | c # _ \<Rightarrow> c = LF)"

text \<open>A source file whose first column name holds no letter or digit.\<close>

definition symbols_source :: pystr where
  "symbols_source = cps ''???,Name'' @ [CR, LF] @ cps ''1,2'' @ [CR, LF]"

section \<open>Properties of header normalisation\<close>

lemma alnum_not_underscore: "is_alnum c \<Longrightarrow> c \<noteq> underscore"
  by (auto simp: is_alnum_def is_lower_def is_upper_def is_digit_def underscore_def)

lemma no_double_Cons:
  "no_double_underscore (a # xs) =
     (no_double_underscore xs \<and> (xs = [] \<or> a \<noteq> underscore \<or> hd xs \<noteq> underscore))"
  by (cases xs) auto

lemma no_double_append:
  "no_double_underscore (xs @ ys) =
     (no_double_underscore xs \<and> no_double_underscore ys \<and>
      (xs = [] \<or> ys = [] \<or> last xs \<noteq> underscore \<or> hd ys \<noteq> underscore))"
proof (induction xs)
  case Nil
  then show ?case by simp
next
  case (Cons a xs)
  then show ?case
    by (cases "xs = []") (auto simp: no_double_Cons hd_append)
qed

lemma no_double_rev: "no_double_underscore (rev xs) = no_double_underscore xs"
proof (induction xs)
  case Nil
  then show ?case by simp
next
  case (Cons a xs)
  have "no_double_underscore (rev (a # xs)) =
      (no_double_underscore (rev xs) \<and> (xs = [] \<or> last (rev xs) \<noteq> underscore \<or> a \<noteq> underscore))"
    by (simp add: no_double_append)
  also have "\<dots> = (no_double_underscore xs \<and> (xs = [] \<or> hd xs \<noteq> underscore \<or> a \<noteq> underscore))"
    using Cons.IH by (cases "xs = []") (simp_all add: last_rev)
  also have "\<dots> = no_double_underscore (a # xs)"
    by (auto simp: no_double_Cons)
  finally show ?case .
qed

lemma no_double_tl: "no_double_underscore (a # xs) \<Longrightarrow> no_double_underscore xs"
  by (cases xs) auto

lemma no_double_dropWhile:
  "no_double_underscore xs \<Longrightarrow> no_double_underscore (dropWhile P xs)"
  by (induction xs) (auto dest: no_double_tl)

lemma no_double_strip_chars:
  "no_double_underscore xs \<Longrightarrow> no_double_underscore (strip_chars P xs)"
  by (simp add: strip_chars_def no_double_rev no_double_dropWhile)

lemma set_strip_chars: "set (strip_chars P xs) \<subseteq> set xs"
proof -
  have "set (strip_chars P xs) = set (dropWhile P (rev (dropWhile P xs)))"
    by (simp add: strip_chars_def)
  also have "\<dots> \<subseteq> set (rev (dropWhile P xs))"
    by (rule set_dropWhileD[THEN subsetI])
  also have "\<dots> \<subseteq> set xs"
    using set_dropWhileD by fastforce
  finally show ?thesis .
qed

lemma strip_chars_ends:
  assumes "strip_chars P xs \<noteq> []"
  shows "\<not> P (hd (strip_chars P xs))" and "\<not> P (last (strip_chars P xs))"
proof -
  let ?ys = "dropWhile P xs"
  let ?zs = "dropWhile P (rev ?ys)"
  have nz: "?zs \<noteq> []" using assms by (simp add: strip_chars_def)
  then have "\<not> P (hd ?zs)" by (rule hd_dropWhile)
  then show "\<not> P (last (strip_chars P xs))"
    using nz by (simp add: strip_chars_def last_rev)
  have ny: "?ys \<noteq> []" using nz by (cases "?ys = []") simp_all
  then have h: "\<not> P (hd ?ys)" by (rule hd_dropWhile)
  have "hd (rev ?zs) = last ?zs" using nz by (simp add: hd_rev)
  also have "\<dots> = last (rev ?ys)"
    using nz by (metis takeWhile_dropWhile_id last_appendR)
  also have "\<dots> = hd ?ys" using ny by (simp add: last_rev)
  finally show "\<not> P (hd (strip_chars P xs))" using h by (simp add: strip_chars_def)
qed

lemma strip_chars_id:
  assumes "s = [] \<or> (\<not> P (hd s) \<and> \<not> P (last s))"
  shows "strip_chars P s = s"
proof (cases s)
  case Nil
  then show ?thesis by (simp add: strip_chars_def)
next
  case (Cons a as)
  then have h: "\<not> P a" and l: "\<not> P (last s)" using assms by auto
  have 1: "dropWhile P s = s" using h Cons by simp
  obtain b bs where r: "rev s = b # bs" using Cons by (cases "rev s") auto
  have "hd (rev s) = last s" using Cons by (simp add: hd_rev)
  then have "\<not> P b" using l r by simp
  then have "dropWhile P (rev s) = rev s" using r by simp
  then show ?thesis using 1 by (simp add: strip_chars_def)
qed

lemma sub_runs_chars: "list_all (\<lambda>c. is_alnum c \<or> c = underscore) (sub_runs s)"
  by (induction s rule: sub_runs.induct) auto

lemma sub_runs_hd:
  "s \<noteq> [] \<Longrightarrow> is_alnum (hd s) \<Longrightarrow> sub_runs s \<noteq> [] \<and> hd (sub_runs s) \<noteq> underscore"
  by (cases s) (auto dest: alnum_not_underscore)

lemma sub_runs_no_double: "no_double_underscore (sub_runs s)"
proof (induction s rule: sub_runs.induct)
  case 1
  then show ?case by simp
next
  case (2 c cs)
  show ?case
  proof (cases "is_alnum c")
    case True
    then show ?thesis using 2 by (auto simp: no_double_Cons dest: alnum_not_underscore)
  next
    case False
    let ?r = "dropWhile (\<lambda>x. \<not> is_alnum x) cs"
    have "sub_runs ?r = [] \<or> hd (sub_runs ?r) \<noteq> underscore"
    proof (cases "?r = []")
      case True
      then show ?thesis by (simp del: dropWhile_eq_Nil_conv)
    next
      case False
      then have "is_alnum (hd ?r)" using hd_dropWhile[of "\<lambda>x. \<not> is_alnum x" cs] by simp
      then show ?thesis using False sub_runs_hd by blast
    qed
    then show ?thesis using False 2 by (auto simp: no_double_Cons)
  qed
qed

lemma alnum_ascii: "is_alnum c \<or> c = underscore \<Longrightarrow> c < 128"
  by (auto simp: is_alnum_def is_lower_def is_upper_def is_digit_def underscore_def)

lemma ascii_lower_token:
  "is_alnum c \<or> c = underscore \<Longrightarrow> is_token_char (ascii_lower c)"
  by (auto simp: is_alnum_def is_lower_def is_upper_def is_digit_def underscore_def
      is_token_char_def ascii_lower_def)

lemma ascii_lower_underscore:
  "is_alnum c \<or> c = underscore \<Longrightarrow> (ascii_lower c = underscore) = (c = underscore)"
  by (auto simp: is_alnum_def is_lower_def is_upper_def is_digit_def underscore_def
      ascii_lower_def)

lemma lower_ascii:
  assumes "list_all (\<lambda>c. is_alnum c \<or> c = underscore) s"
  shows "lower ul s = map ascii_lower s"
proof -
  have "list_all (\<lambda>c. c < 128) s"
    using assms alnum_ascii by (auto simp: list_all_iff)
  then show ?thesis by (simp add: lower_def)
qed

lemma map_lower_chars:
  "list_all (\<lambda>c. is_alnum c \<or> c = underscore) s \<Longrightarrow> list_all is_token_char (map ascii_lower s)"
  by (induction s) (auto simp: ascii_lower_token)

lemma map_lower_no_double:
  "list_all (\<lambda>c. is_alnum c \<or> c = underscore) s \<Longrightarrow> no_double_underscore s \<Longrightarrow>
   no_double_underscore (map ascii_lower s)"
proof (induction s rule: no_double_underscore.induct)
  case (1 a b cs)
  then show ?case by (simp add: ascii_lower_underscore)
qed simp_all

lemma header_token_strip:
  assumes "list_all is_token_char s" and "no_double_underscore s"
  shows "header_token (strip_chars (\<lambda>c. c = underscore) s)"
proof -
  let ?t = "strip_chars (\<lambda>c. c = underscore) s"
  have "list_all is_token_char ?t"
    using assms(1) set_strip_chars[of "\<lambda>c. c = underscore" s] by (auto simp: list_all_iff)
  moreover have "no_double_underscore ?t"
    using assms(2) by (rule no_double_strip_chars)
  moreover have "?t \<noteq> [] \<Longrightarrow> hd ?t \<noteq> underscore \<and> last ?t \<noteq> underscore"
    using strip_chars_ends[of "\<lambda>c. c = underscore" s] by simp
  ultimately show ?thesis
    by (cases ?t) (auto simp: header_token_def)
qed

lemma normalised_shape: "header_token (to_snake_case ul name)"
proof -
  let ?s = "sub_runs (remove_punct (strip name))"
  have c: "list_all (\<lambda>c. is_alnum c \<or> c = underscore) ?s" by (rule sub_runs_chars)
  have n: "no_double_underscore ?s" by (rule sub_runs_no_double)
  have "lower ul ?s = map ascii_lower ?s" using c by (rule lower_ascii)
  moreover have "header_token (strip_chars (\<lambda>c. c = underscore) (map ascii_lower ?s))"
    using map_lower_chars[OF c] map_lower_no_double[OF c n] by (rule header_token_strip)
  ultimately show ?thesis by (simp add: to_snake_case_def)
qed

lemma token_char_props:
  assumes "is_token_char c"
  shows "\<not> is_removed c" and "\<not> is_upper c" and "is_alnum c \<or> c = underscore"
    and "c \<noteq> underscore \<Longrightarrow> \<not> is_space c"
  using assms
  by (auto simp: is_token_char_def is_removed_def is_upper_def is_lower_def is_digit_def
      is_alnum_def underscore_def is_space_def)

lemma sub_runs_token:
  "list_all is_token_char s \<Longrightarrow> no_double_underscore s \<Longrightarrow> sub_runs s = s"
proof (induction s rule: sub_runs.induct)
  case 1
  then show ?case by simp
next
  case (2 c cs)
  show ?case
  proof (cases "is_alnum c")
    case True
    then show ?thesis using 2 by (auto simp: no_double_Cons)
  next
    case False
    then have cu: "c = underscore" using 2(3) token_char_props(3) by auto
    have d: "dropWhile (\<lambda>x. \<not> is_alnum x) cs = cs"
    proof (cases cs)
      case Nil
      then show ?thesis by simp
    next
      case (Cons b bs)
      then have "b \<noteq> underscore" using 2(4) cu by simp
      moreover have "is_token_char b" using 2(3) Cons by simp
      ultimately have "is_alnum b" using token_char_props(3) by auto
      then show ?thesis using Cons by simp
    qed
    have "sub_runs cs = cs"
      using 2(2)[OF False] 2(3,4) d by (auto simp: no_double_Cons)
    then show ?thesis using False d cu by simp
  qed
qed

lemma header_token_fixed:
  assumes "header_token t"
  shows "to_snake_case ul t = t"
proof -
  have tc: "list_all is_token_char t" and nd: "no_double_underscore t"
    and ends: "t = [] \<or> (hd t \<noteq> underscore \<and> last t \<noteq> underscore)"
    using assms by (auto simp: header_token_def split: list.splits)
  have "t \<noteq> [] \<Longrightarrow> is_token_char (hd t) \<and> is_token_char (last t)"
    using tc by (auto simp: list_all_iff)
  then have "t = [] \<or> (\<not> is_space (hd t) \<and> \<not> is_space (last t))"
    using ends token_char_props(4) by blast
  then have 1: "strip t = t" unfolding strip_def by (rule strip_chars_id)
  have 2: "remove_punct t = t"
    using tc token_char_props(1) by (auto simp: remove_punct_def list_all_iff filter_id_conv)
  have 3: "sub_runs t = t" using tc nd by (rule sub_runs_token)
  have "list_all (\<lambda>c. is_alnum c \<or> c = underscore) t"
    using tc token_char_props(3) by (auto simp: list_all_iff)
  then have "lower ul t = map ascii_lower t" by (rule lower_ascii)
  also have "\<dots> = t"
    using tc token_char_props(2) by (auto simp: list_all_iff ascii_lower_def map_idI)
  finally have 4: "lower ul t = t" .
  have 5: "strip_chars (\<lambda>c. c = underscore) t = t"
    using ends by (intro strip_chars_id) simp
  show ?thesis by (simp add: to_snake_case_def 1 2 3 4 5)
qed

lemmas norm_defs =
  to_snake_case_def cps_def strip_def strip_chars_def is_space_def remove_punct_def
  is_removed_def is_alnum_def is_lower_def is_upper_def is_digit_def lower_def
  underscore_def ascii_lower_def

text \<open>
  C8.  Header normalisation is a total function, and for every input string (and
  whatever the Unicode tables say) its result has the shape of a header token: only
  lowercase ASCII letters, digits and underscores, no underscore at either end, no
  two underscores in a row.
\<close>

theorem to_snake_case_header_token: "header_token (to_snake_case ul name)"
proof -
  let ?s = "sub_runs (remove_punct (strip name))"
  have c: "list_all (\<lambda>c. is_alnum c \<or> c = underscore) ?s" by (rule sub_runs_chars)
  have n: "no_double_underscore ?s" by (rule sub_runs_no_double)
  have "lower ul ?s = map ascii_lower ?s" using c by (rule lower_ascii)
  moreover have "header_token (strip_chars (\<lambda>c. c = underscore) (map ascii_lower ?s))"
    using map_lower_chars[OF c] map_lower_no_double[OF c n] by (rule header_token_strip)
  ultimately show ?thesis by (simp add: to_snake_case_def)
qed

theorem to_snake_case_header_token_witness:
  "header_token (to_snake_case (\<lambda>s. s) (cps ''  Facility  ID  ''))
   \<and> to_snake_case (\<lambda>s. s) (cps ''  Facility  ID  '') = cps ''facility_id''"
  using to_snake_case_header_token [of "\<lambda>s. s" "cps ''  Facility  ID  ''"]
  by (simp add: norm_defs)

text \<open>
  C4.  Header normalisation is idempotent: normalising a normalised name changes
  nothing, for every string.
\<close>

theorem to_snake_case_idempotent:
  "to_snake_case ul (to_snake_case ul x) = to_snake_case ul x"
proof -
  have "header_token (to_snake_case ul x)" by (rule normalised_shape)
  then show ?thesis by (rule header_token_fixed)
qed

section \<open>Properties of the filters\<close>

lemma is_substring_iff: "is_substring t s = (\<exists>a b. s = a @ t @ b)"
proof (induction s)
  case Nil
  then show ?case by auto
next
  case (Cons c cs)
  have "(take (length t) (c # cs) = t) = (\<exists>b. c # cs = t @ b)"
    by (metis append_eq_conv_conj)
  moreover have "(\<exists>a b. c # cs = a @ t @ b) = ((\<exists>b. c # cs = t @ b) \<or> (\<exists>a b. cs = a @ t @ b))"
  proof
    assume "\<exists>a b. c # cs = a @ t @ b"
    then obtain a b where ab: "c # cs = a @ t @ b" by blast
    show "(\<exists>b. c # cs = t @ b) \<or> (\<exists>a b. cs = a @ t @ b)"
    proof (cases a)
      case Nil
      then show ?thesis using ab by auto
    next
      case (Cons x xs)
      then have "cs = xs @ t @ b" using ab by simp
      then show ?thesis by blast
    qed
  next
    assume "(\<exists>b. c # cs = t @ b) \<or> (\<exists>a b. cs = a @ t @ b)"
    then show "\<exists>a b. c # cs = a @ t @ b"
    proof
      assume "\<exists>b. c # cs = t @ b"
      then show ?thesis by (metis append_Nil)
    next
      assume "\<exists>a b. cs = a @ t @ b"
      then obtain a b where "cs = a @ t @ b" by blast
      then have "c # cs = (c # a) @ t @ b" by simp
      then show ?thesis by blast
    qed
  qed
  ultimately show ?case using Cons.IH by simp
qed



lemmas example_defs =
  cps_def example_iso_def datetime_ymd_def days_from_civil_def day_micros_def
  recency_examples_def hospitals_theme_def aware_descriptor_def string_theme_descriptor_def
  modified_of_def comparable_modified_def comparable_def modified_after_def instant_def



lemma modified_step:
  "(case getitem_key d (cps ''modified'') of Inl e \<Rightarrow> Inl e | Inr v \<Rightarrow> fromisoformat parse v) = Inr dt
     \<Longrightarrow> modified_of parse d = Some dt"
  "(case getitem_key d (cps ''modified'') of Inl e \<Rightarrow> Inl e | Inr v \<Rightarrow> fromisoformat parse v) = Inl e
     \<Longrightarrow> (e = KeyError \<or> e = TypeError \<or> e = ValueError) \<and> modified_of parse d = None"
proof -
  show "(case getitem_key d (cps ''modified'') of Inl e \<Rightarrow> Inl e | Inr v \<Rightarrow> fromisoformat parse v) = Inr dt
     \<Longrightarrow> modified_of parse d = Some dt"
    by (cases d) (auto simp: modified_of_def fromisoformat_def split: option.splits json.splits)
  show "(case getitem_key d (cps ''modified'') of Inl e \<Rightarrow> Inl e | Inr v \<Rightarrow> fromisoformat parse v) = Inl e
     \<Longrightarrow> (e = KeyError \<or> e = TypeError \<or> e = ValueError) \<and> modified_of parse d = None"
    by (cases d) (auto simp: modified_of_def fromisoformat_def split: option.splits json.splits)
qed

lemma dt_gt_comparable:
  "comparable a b \<Longrightarrow> dt_gt a b = Inr (instant a > instant b)"
  by (auto simp: comparable_def dt_gt_def instant_def split: option.splits)

lemma dt_gt_incomparable:
  "\<not> comparable a b \<Longrightarrow> dt_gt a b = Inl TypeError"
  by (auto simp: comparable_def dt_gt_def split: option.splits)

text \<open>
  Where every modified value that parses can be ordered against the cutoff (both
  naive, or both timezone-aware), the recency filter returns exactly the
  descriptors whose modified field is a string that parses to a timestamp strictly
  greater than the cutoff: a value equal to the cutoff is excluded, and a missing,
  non-string or unparsable value is dropped without failing the filter.
\<close>

lemma recency_filter_comparable:
  assumes "list_all (comparable_modified parse cutoff) ds"
  shows "filter_modified_entries parse ds cutoff = Inr (filter (modified_after parse cutoff) ds)"
  using assms
proof (induction ds)
  case Nil
  then show ?case by simp
next
  case (Cons d ds)
  then have IH: "filter_modified_entries parse ds cutoff = Inr (filter (modified_after parse cutoff) ds)"
    and c: "comparable_modified parse cutoff d"
    by simp_all
  let ?r = "case getitem_key d (cps ''modified'') of Inl e \<Rightarrow> Inl e | Inr v \<Rightarrow> fromisoformat parse v"
  show ?case
  proof (cases ?r)
    case (Inl e)
    from modified_step(2)[OF Inl] have "\<not> modified_after parse cutoff d"
      and "e = KeyError \<or> e = TypeError \<or> e = ValueError"
      by (simp_all add: modified_after_def)
    then show ?thesis using Inl IH by auto
  next
    case (Inr dt)
    from modified_step(1)[OF Inr] have m: "modified_of parse d = Some dt" .
    then have "comparable dt cutoff" using c by (simp add: comparable_modified_def)
    then have "dt_gt dt cutoff = Inr (instant dt > instant cutoff)" by (rule dt_gt_comparable)
    moreover have "modified_after parse cutoff d = (instant dt > instant cutoff)"
      using m by (simp add: modified_after_def)
    ultimately show ?thesis using Inr IH by simp
  qed
qed

lemma recency_filter_comparable_example:
  "list_all (comparable_modified example_iso (datetime_ymd 2024 6 1)) recency_examples
   \<and> filter_modified_entries example_iso recency_examples (datetime_ymd 2024 6 1) =
       Inr [JObj [(cps ''modified'', JStr (cps ''2024-06-01T00:00:00.000001''))]]"
proof -
  have h: "list_all (comparable_modified example_iso (datetime_ymd 2024 6 1)) recency_examples"
    by (simp add: example_defs)
  have "filter (modified_after example_iso (datetime_ymd 2024 6 1)) recency_examples =
      [JObj [(cps ''modified'', JStr (cps ''2024-06-01T00:00:00.000001''))]]"
    by (simp add: example_defs)
  then show ?thesis using h recency_filter_comparable [OF h] by simp
qed

section \<open>Properties of the ledger\<close>

lemma series_max_Max:
  "series_max col =
     (if List.map_filter (\<lambda>x. x) col = [] then None
      else Some (Max (set (List.map_filter (\<lambda>x. x) col))))"
proof (cases "List.map_filter (\<lambda>x. x) col")
  case Nil
  then show ?thesis by (simp add: series_max_def)
next
  case (Cons v vs)
  have "fold max vs v = Max (set (v # vs))" by (simp only: Max.set_eq_fold)
  then show ?thesis using Cons by (simp add: series_max_def)
qed

lemma read_well_formed:
  "well_formed f \<Longrightarrow> read_csv f = Inr (map date_cell (records f))"
  by (auto simp: well_formed_def read_csv_def)

lemma cutoff_absent:
  "get_last_run_date None =
     (Some \<lparr>header_line = ledger_header, records = []\<rparr>, Inr (datetime_ymd 1900 1 1))"
  by (simp add: get_last_run_date_def read_csv_def series_max_def List.map_filter_def
      ledger_header_def cps_def)

lemma cutoff_present:
  assumes "well_formed f"
  shows "get_last_run_date (Some f) =
     (Some f, Inr (if run_dates f = [] then datetime_ymd 1900 1 1
                   else naive (Max (set (run_dates f)))))"
  using read_well_formed[OF assms]
  by (simp add: get_last_run_date_def series_max_Max run_dates_def naive_def)

lemma cutoff_after_append:
  assumes "well_formed f" and "records f = []"
  shows "snd (get_last_run_date (update_run_metadata d c (Some f))) =
     Inr (naive (date_of d * day_micros))"
proof -
  let ?g = "f\<lparr>records := records f @ [\<lparr>date_cell = Some (date_of d * day_micros), count_cell = c\<rparr>]\<rparr>"
  have u: "update_run_metadata d c (Some f) = Some ?g"
    by (simp add: update_run_metadata_def)
  have w: "well_formed ?g" using assms(1) by (simp add: well_formed_def)
  have "run_dates ?g = [date_of d * day_micros]"
    using assms(2) by (simp add: run_dates_def List.map_filter_def)
  then show ?thesis unfolding u cutoff_present[OF w] by simp
qed

text \<open>
  C7.  On a ledger file that does not exist, reading the cutoff creates it with the
  header alone and returns 1900-01-01.  On an existing, well-formed file it returns
  the greatest run date of the records, and 1900-01-01 when there is none.  After
  one append of a run date and a count to a ledger without records (the one just
  created in particular), reading the cutoff returns that date, at midnight.
\<close>

theorem ledger_cutoff:
  "get_last_run_date None =
     (Some \<lparr>header_line = ledger_header, records = []\<rparr>, Inr (datetime_ymd 1900 1 1))
   \<and> (well_formed f \<longrightarrow>
        get_last_run_date (Some f) =
          (Some f, Inr (if run_dates f = [] then datetime_ymd 1900 1 1
                        else naive (Max (set (run_dates f))))))
   \<and> (well_formed f \<and> records f = [] \<longrightarrow>
        snd (get_last_run_date (update_run_metadata d c (Some f))) =
          Inr (naive (date_of d * day_micros)))
   \<and> snd (get_last_run_date (update_run_metadata d c (fst (get_last_run_date None)))) =
        Inr (naive (date_of d * day_micros))"
proof -
  have "well_formed \<lparr>header_line = ledger_header, records = []\<rparr>"
    by (simp add: well_formed_def ledger_header_def)
  then have "snd (get_last_run_date (update_run_metadata d c (fst (get_last_run_date None)))) =
        Inr (naive (date_of d * day_micros))"
    unfolding cutoff_absent by (simp add: cutoff_after_append)
  then show ?thesis
    using cutoff_absent cutoff_present cutoff_after_append by blast
qed

theorem ledger_cutoff_witness:
  "well_formed example_ledger
   \<and> get_last_run_date (Some example_ledger) = (Some example_ledger, Inr (datetime_ymd 2024 5 1))
   \<and> well_formed \<lparr>header_line = ledger_header, records = []\<rparr>
   \<and> get_last_run_date (Some \<lparr>header_line = ledger_header, records = []\<rparr>) =
       (Some \<lparr>header_line = ledger_header, records = []\<rparr>, Inr (datetime_ymd 1900 1 1))
   \<and> snd (get_last_run_date
        (update_run_metadata (datetime_ymd 2024 6 1) 5 (Some \<lparr>header_line = ledger_header, records = []\<rparr>))) =
       Inr (datetime_ymd 2024 6 1)"
proof -
  let ?h = "\<lparr>header_line = ledger_header, records = []\<rparr>"
  have w1: "well_formed example_ledger"
    by (simp add: well_formed_def example_ledger_def ledger_header_def)
  have w2: "well_formed ?h"
    by (simp add: well_formed_def ledger_header_def)
  have r1: "run_dates example_ledger =
      [days_from_civil 2024 4 1 * day_micros, days_from_civil 2024 5 1 * day_micros]"
    by (simp add: run_dates_def example_ledger_def List.map_filter_def)
  have m: "Max {days_from_civil 2024 4 1 * day_micros, days_from_civil 2024 5 1 * day_micros}
      = days_from_civil 2024 5 1 * day_micros"
    by (simp add: days_from_civil_def day_micros_def)
  have d: "date_of (datetime_ymd 2024 6 1) = days_from_civil 2024 6 1"
    by (simp add: date_of_def datetime_ymd_def day_micros_def)
  from ledger_cutoff [of example_ledger] w1
  have 1: "get_last_run_date (Some example_ledger) = (Some example_ledger, Inr (datetime_ymd 2024 5 1))"
    by (simp add: r1 m naive_def datetime_ymd_def)
  from ledger_cutoff [of ?h] w2
  have 2: "get_last_run_date (Some ?h) = (Some ?h, Inr (datetime_ymd 1900 1 1))"
    by (simp add: run_dates_def List.map_filter_def)
  from ledger_cutoff [of ?h "datetime_ymd 2024 6 1" 5] w2
  have "snd (get_last_run_date (update_run_metadata (datetime_ymd 2024 6 1) 5 (Some ?h))) =
       Inr (naive (date_of (datetime_ymd 2024 6 1) * day_micros))"
    by simp
  then have 3: "snd (get_last_run_date (update_run_metadata (datetime_ymd 2024 6 1) 5 (Some ?h))) =
       Inr (datetime_ymd 2024 6 1)"
    unfolding d by (simp add: naive_def datetime_ymd_def)
  show ?thesis using w1 w2 1 2 3 by simp
qed


section \<open>Properties of reading and writing CSV text\<close>

lemma events_append: "events (a @ b) = events a @ events b"
  by (simp add: events_def)

lemma events_plain: "LF \<notin> set t \<Longrightarrow> events t = map Some t"
  by (induction t) (auto simp: events_def)

lemma within_append:
  "within p (a @ b) = (case within p a of None \<Rightarrow> None | Some p1 \<Rightarrow> within p1 b)"
  by (induction a arbitrary: p) (auto split: sum.splits)

lemma run_within:
  "within p evs = Some p1 \<Longrightarrow> run p (evs @ rest) = run p1 rest"
  by (induction evs arbitrary: p) (auto split: sum.splits if_splits)

lemma run_feed:
  "run p (map Some l @ evs) = (case feed p l of Inl e \<Rightarrow> Inl e | Inr p1 \<Rightarrow> run p1 evs)"
  by (induction l arbitrary: p) (auto split: sum.splits)

lemma read_rows_run: "read_rows p ls = run p (line_events ls)"
proof (induction ls arbitrary: p)
  case Nil
  then show ?case by (simp add: line_events_def)
next
  case (Cons l ls)
  have "line_events (l # ls) = map Some l @ None # line_events ls"
    by (simp add: line_events_def)
  then show ?case
    using Cons.IH by (auto simp: run_feed split: sum.splits)
qed

lemma whole_lines_Cons:
  "whole_lines (c # cs) \<Longrightarrow> c \<noteq> LF \<Longrightarrow> cs \<noteq> [] \<and> whole_lines cs"
  by (cases "rev cs") (auto simp: whole_lines_def split: list.splits)

lemma whole_lines_LF: "whole_lines (LF # cs) \<Longrightarrow> whole_lines cs"
  by (cases "rev cs") (auto simp: whole_lines_def split: list.splits)

lemma split_lines_nonempty: "cs \<noteq> [] \<Longrightarrow> split_lines cs \<noteq> []"
  by (cases cs) (auto split: list.splits)

lemma line_events_split: "whole_lines t \<Longrightarrow> line_events (split_lines t) = events t"
proof (induction t)
  case Nil
  then show ?case by (simp add: line_events_def events_def)
next
  case (Cons c cs)
  show ?case
  proof (cases "c = LF")
    case True
    then have "whole_lines cs" using Cons.prems whole_lines_LF by simp
    then have "line_events (split_lines cs) = events cs" by (rule Cons.IH)
    then show ?thesis using True by (simp add: line_events_def events_def)
  next
    case False
    then have n: "cs \<noteq> []" and w: "whole_lines cs"
      using whole_lines_Cons[OF Cons.prems] by simp_all
    from split_lines_nonempty[OF n] obtain l ls where s: "split_lines cs = l # ls"
      by (cases "split_lines cs") auto
    have "line_events (split_lines cs) = events cs" using w by (rule Cons.IH)
    then show ?thesis using False s by (simp add: line_events_def events_def)
  qed
qed

lemma csv_reader_run: "whole_lines t \<Longrightarrow> csv_reader t = run parse_reset (events t)"
  by (simp add: csv_reader_def read_rows_run line_events_split)


lemmas step_defs = parse_process_char_def start_field_def parse_add_char_def parse_save_field_def
  set_state_def comma_def dquote_def CR_def LF_def

lemma limit_pos: "0 < field_limit"
  by (simp add: field_limit_def)

lemma step_in_field:
  "c \<noteq> LF \<Longrightarrow> c \<noteq> CR \<Longrightarrow> c \<noteq> comma \<Longrightarrow> length g < field_limit \<Longrightarrow>
   parse_process_char (ps IN_FIELD g fs) (Some c) = Inr (ps IN_FIELD (g @ [c]) fs)"
  by (simp add: step_defs)

lemma step_start_plain:
  "c \<noteq> LF \<Longrightarrow> c \<noteq> CR \<Longrightarrow> c \<noteq> comma \<Longrightarrow> c \<noteq> dquote \<Longrightarrow>
   parse_process_char (ps START_FIELD [] fs) (Some c) = Inr (ps IN_FIELD [c] fs)"
  using limit_pos by (simp add: step_defs)

lemma step_start_quote:
  "parse_process_char (ps START_FIELD [] fs) (Some dquote) = Inr (ps IN_QUOTED_FIELD [] fs)"
  by (simp add: step_defs)

lemma step_quoted_add:
  "c \<noteq> dquote \<Longrightarrow> length g < field_limit \<Longrightarrow>
   parse_process_char (ps IN_QUOTED_FIELD g fs) (Some c) = Inr (ps IN_QUOTED_FIELD (g @ [c]) fs)"
  by (simp add: step_defs)

lemma step_quoted_eol:
  "parse_process_char (ps IN_QUOTED_FIELD g fs) None = Inr (ps IN_QUOTED_FIELD g fs)"
  by (simp add: step_defs)

lemma step_quoted_quote:
  "parse_process_char (ps IN_QUOTED_FIELD g fs) (Some dquote) = Inr (ps QUOTE_IN_QUOTED_FIELD g fs)"
  by (simp add: step_defs)

lemma step_quote_quote:
  "length g < field_limit \<Longrightarrow>
   parse_process_char (ps QUOTE_IN_QUOTED_FIELD g fs) (Some dquote) =
     Inr (ps IN_QUOTED_FIELD (g @ [dquote]) fs)"
  by (simp add: step_defs)

text \<open>The state after a delimiter: the next field after a comma, the line end after \<open>\r\<close>.\<close>

lemma step_delimiter:
  assumes "d = comma \<or> d = CR"
    and "s = IN_FIELD \<or> s = QUOTE_IN_QUOTED_FIELD \<or> (s = START_FIELD \<and> g = [])"
  shows "parse_process_char (ps s g fs) (Some d) =
     Inr (ps (if d = comma then START_FIELD else EAT_CRNL) [] (fs @ [g]))"
  using assms by (auto simp: step_defs)

lemma within_plain:
  "\<not> list_ex needs_quote f \<Longrightarrow> length (g @ f) \<le> field_limit \<Longrightarrow>
   within (ps IN_FIELD g fs) (map Some f) = Some (ps IN_FIELD (g @ f) fs)"
proof (induction f arbitrary: g)
  case Nil
  then show ?case by simp
next
  case (Cons c f)
  then have c: "c \<noteq> LF" "c \<noteq> CR" "c \<noteq> comma" and l: "length g < field_limit"
    by (auto simp: needs_quote_def)
  have "within (ps IN_FIELD (g @ [c]) fs) (map Some f) = Some (ps IN_FIELD ((g @ [c]) @ f) fs)"
    using Cons.prems by (intro Cons.IH) auto
  then show ?case by (simp add: step_in_field[OF c l])
qed

lemma within_quoted_body:
  "length (g @ f) \<le> field_limit \<Longrightarrow>
   within (ps IN_QUOTED_FIELD g fs)
     (events (concat (map (\<lambda>c. if c = dquote then [dquote, dquote] else [c]) f))) =
   Some (ps IN_QUOTED_FIELD (g @ f) fs)"
proof (induction f arbitrary: g)
  case Nil
  then show ?case by (simp add: events_def)
next
  case (Cons c f)
  let ?body = "concat (map (\<lambda>c. if c = dquote then [dquote, dquote] else [c]) f)"
  have l: "length g < field_limit" using Cons.prems by simp
  have IH: "within (ps IN_QUOTED_FIELD (g @ [c]) fs) (events ?body) =
      Some (ps IN_QUOTED_FIELD (g @ c # f) fs)"
    using Cons.IH[of "g @ [c]"] Cons.prems by simp
  have q: "dquote \<noteq> LF" by (simp add: dquote_def LF_def)
  show ?case
  proof (cases "c = dquote")
    case True
    then have "events (concat (map (\<lambda>c. if c = dquote then [dquote, dquote] else [c]) (c # f))) =
        Some dquote # Some dquote # events ?body"
      using q by (simp add: events_def)
    then show ?thesis
      using IH True by (simp add: step_quoted_quote step_quote_quote[OF l])
  next
    case False
    show ?thesis
    proof (cases "c = LF")
      case True
      then have "events (concat (map (\<lambda>c. if c = dquote then [dquote, dquote] else [c]) (c # f))) =
          Some c # None # events ?body"
        using False by (simp add: events_def)
      then show ?thesis
        using IH by (simp add: step_quoted_add[OF False l] step_quoted_eol)
    next
      case nl: False
      then have "events (concat (map (\<lambda>c. if c = dquote then [dquote, dquote] else [c]) (c # f))) =
          Some c # events ?body"
        using False by (simp add: events_def)
      then show ?thesis
        using IH by (simp add: step_quoted_add[OF False l])
    qed
  qed
qed

lemma plain_body:
  "\<not> list_ex needs_quote f \<Longrightarrow>
   concat (map (\<lambda>c. if c = dquote then [dquote, dquote] else [c]) f) = f"
  by (induction f) (auto simp: needs_quote_def)

lemma within_field:
  assumes "fits f" and d: "d = comma \<or> d = CR"
  shows "within (ps START_FIELD [] fs) (events (join_field f) @ [Some d]) =
     Some (ps (if d = comma then START_FIELD else EAT_CRNL) [] (fs @ [f]))"
proof (cases "list_ex needs_quote f")
  case True
  let ?body = "concat (map (\<lambda>c. if c = dquote then [dquote, dquote] else [c]) f)"
  have q: "dquote \<noteq> LF" by (simp add: dquote_def LF_def)
  have "events (join_field f) @ [Some d] =
      Some dquote # events ?body @ [Some dquote, Some d]"
    using True q by (simp add: join_field_def events_def)
  moreover have "within (ps IN_QUOTED_FIELD [] fs) (events ?body) = Some (ps IN_QUOTED_FIELD f fs)"
    using within_quoted_body[of "[]" f fs] assms(1) by (simp add: fits_def)
  ultimately show ?thesis
    using d by (simp add: step_start_quote within_append step_quoted_quote step_delimiter)
next
  case False
  then have j: "join_field f = f" by (simp add: join_field_def plain_body)
  have nl: "LF \<notin> set f" using False by (auto simp: list_ex_iff needs_quote_def)
  show ?thesis
  proof (cases f)
    case Nil
    then show ?thesis using d j by (simp add: events_def step_delimiter)
  next
    case (Cons c f')
    then have c: "c \<noteq> LF" "c \<noteq> CR" "c \<noteq> comma" "c \<noteq> dquote" and r: "\<not> list_ex needs_quote f'"
      using False by (auto simp: needs_quote_def)
    have "within (ps IN_FIELD [c] fs) (map Some f') = Some (ps IN_FIELD ([c] @ f') fs)"
      using r assms(1) Cons by (intro within_plain) (auto simp: fits_def)
    then show ?thesis
      using d j Cons nl
      by (simp add: events_plain step_start_plain[OF c] within_append step_delimiter)
  qed
qed


lemma within_row:
  assumes "r \<noteq> []" and "list_all fits r"
  shows "within (ps START_FIELD [] fs) (events (join_fields r @ [CR])) =
     Some (ps EAT_CRNL [] (fs @ r))"
  using assms
proof (induction r arbitrary: fs rule: join_fields.induct)
  case 1
  then show ?case by simp
next
  case (2 f)
  have "events (join_fields [f] @ [CR]) = events (join_field f) @ [Some CR]"
    by (simp add: events_append) (simp add: events_def CR_def LF_def)
  then show ?case
    using within_field[of f CR fs] 2 by (simp add: CR_def comma_def)
next
  case (3 f g gs)
  let ?a = "events (join_field f) @ [Some comma]"
  let ?b = "events (join_fields (g # gs) @ [CR])"
  have e: "events (join_fields (f # g # gs) @ [CR]) = ?a @ ?b"
    by (simp add: events_append) (simp add: events_def comma_def LF_def)
  have a: "within (ps START_FIELD [] fs) ?a = Some (ps START_FIELD [] (fs @ [f]))"
    using within_field[of f comma fs] 3(3) by simp
  have b: "within (ps START_FIELD [] (fs @ [f])) ?b = Some (ps EAT_CRNL [] ((fs @ [f]) @ g # gs))"
    using 3(3) by (intro 3(1)) simp_all
  have "within (ps START_FIELD [] fs) (?a @ ?b) = within (ps START_FIELD [] (fs @ [f])) ?b"
    by (simp only: within_append[of _ ?a ?b] a option.case)
  then show ?case unfolding e using b by simp
qed

text \<open>The first character of a row's text is no line end.\<close>

lemma join_field_hd:
  assumes "f \<noteq> []"
  shows "join_field f \<noteq> [] \<and> hd (join_field f) \<noteq> CR \<and> hd (join_field f) \<noteq> LF"
proof (cases "list_ex needs_quote f")
  case True
  then show ?thesis by (simp add: join_field_def dquote_def CR_def LF_def)
next
  case False
  then have "join_field f = f" by (simp add: join_field_def plain_body)
  moreover have "\<not> needs_quote (hd f)" using False assms by (cases f) auto
  ultimately show ?thesis using assms by (auto simp: needs_quote_def)
qed

lemma row_text_hd:
  assumes "r \<noteq> []"
  shows "\<exists>c t. (if r = [[]] then [dquote, dquote] else join_fields r) @ [CR] = c # t
     \<and> c \<noteq> CR \<and> c \<noteq> LF"
proof (cases "r = [[]]")
  case True
  then show ?thesis by (simp add: dquote_def CR_def LF_def)
next
  case False
  obtain f fs where r: "r = f # fs" using assms by (cases r) auto
  show ?thesis
  proof (cases "f = []")
    case True
    then obtain g gs where "fs = g # gs" using False r by (cases fs) auto
    then show ?thesis using r True False
      by (simp add: join_field_def comma_def CR_def LF_def)
  next
    case nf: False
    from join_field_hd[OF nf] obtain c t where j: "join_field f = c # t" and c: "c \<noteq> CR" "c \<noteq> LF"
      by (cases "join_field f") auto
    show ?thesis using r j c False by (cases fs) auto
  qed
qed

lemma start_record_step:
  "c \<noteq> CR \<Longrightarrow> c \<noteq> LF \<Longrightarrow>
   parse_process_char parse_reset (Some c) = parse_process_char (ps START_FIELD [] []) (Some c)"
  by (simp add: parse_process_char_def parse_reset_def)

lemma run_start_record:
  "c \<noteq> CR \<Longrightarrow> c \<noteq> LF \<Longrightarrow> run parse_reset (Some c # evs) = run (ps START_FIELD [] []) (Some c # evs)"
  by (simp add: start_record_step)

lemma run_line_end:
  "run (ps EAT_CRNL [] r) (Some LF # None # rest) =
     (case run parse_reset rest of Inl e \<Rightarrow> Inl e | Inr rs \<Rightarrow> Inr (r # rs))"
  by (simp add: step_defs split: sum.splits)

lemma run_row:
  assumes "list_all fits r"
  shows "run parse_reset (events (writerow r) @ rest) =
     (case run parse_reset rest of Inl e \<Rightarrow> Inl e | Inr rs \<Rightarrow> Inr (r # rs))"
proof (cases "r = []")
  case True
  have "events (writerow []) = [Some CR, Some LF, None]"
    by (simp add: writerow_def events_def CR_def LF_def)
  then show ?thesis using True
    by (simp add: parse_reset_def step_defs split: sum.splits)
next
  case False
  let ?x = "(if r = [[]] then [dquote, dquote] else join_fields r) @ [CR]"
  have e: "events (writerow r) = events ?x @ [Some LF, None]"
    unfolding writerow_def by (simp add: events_append) (simp add: events_def CR_def LF_def)
  have w: "within (ps START_FIELD [] []) (events ?x) = Some (ps EAT_CRNL [] r)"
  proof (cases "r = [[]]")
    case True
    have "events ([dquote, dquote] @ [CR]) = [Some dquote, Some dquote, Some CR]"
      by (simp add: events_def dquote_def CR_def LF_def)
    then show ?thesis using True
      by (simp add: step_start_quote step_quoted_quote step_delimiter) (simp add: CR_def comma_def)
  next
    case nr: False
    then show ?thesis using within_row[OF False assms, of "[]"] by simp
  qed
  from row_text_hd[OF False] obtain c t where x: "?x = c # t" and c: "c \<noteq> CR" "c \<noteq> LF"
    by blast
  then have "events ?x = Some c # events t" by (simp add: events_def)
  then have "run parse_reset (events ?x @ [Some LF, None] @ rest) =
      run (ps START_FIELD [] []) (events ?x @ [Some LF, None] @ rest)"
    using run_start_record[OF c] by (simp del: run.simps)
  also have "\<dots> = run (ps EAT_CRNL [] r) ([Some LF, None] @ rest)"
    using w by (rule run_within)
  also have "\<dots> = (case run parse_reset rest of Inl e \<Rightarrow> Inl e | Inr rs \<Rightarrow> Inr (r # rs))"
    by (simp only: append.simps run_line_end)
  finally show ?thesis by (simp only: e append_assoc)
qed

lemma run_rows:
  "rows_fit rs \<Longrightarrow> run parse_reset (events (writerows rs)) = Inr rs"
proof (induction rs)
  case Nil
  then show ?case by (simp add: writerows_def events_def parse_reset_def)
next
  case (Cons r rs)
  then have "list_all fits r" and IH: "run parse_reset (events (writerows rs)) = Inr rs"
    by (simp_all add: rows_fit_def)
  then show ?case
    using run_row[of r "events (writerows rs)"] by (simp add: writerows_def events_append)
qed

lemma whole_lines_append: "whole_lines b \<Longrightarrow> b \<noteq> [] \<Longrightarrow> whole_lines (a @ b)"
  by (cases "rev b") (auto simp: whole_lines_def)

lemma whole_lines_writerows: "whole_lines (writerows rs)"
proof (induction rs)
  case Nil
  then show ?case by (simp add: writerows_def whole_lines_def)
next
  case (Cons r rs)
  show ?case
  proof (cases "writerows rs = []")
    case True
    then show ?thesis by (simp add: writerows_def writerow_def whole_lines_def)
  next
    case False
    then show ?thesis using Cons whole_lines_append by (simp add: writerows_def)
  qed
qed

lemma read_written: "rows_fit rs \<Longrightarrow> csv_reader (writerows rs) = Inr rs"
  by (simp add: csv_reader_run whole_lines_writerows run_rows)


lemma step_fits:
  "parser_fits p \<Longrightarrow> parse_process_char p ev = Inr p1 \<Longrightarrow> parser_fits p1"
  by (cases "state p"; cases ev)
    (auto simp: parser_fits_def fits_def parse_process_char_def start_field_def
      parse_add_char_def parse_save_field_def set_state_def split: if_splits sum.splits)

lemma feed_fits: "parser_fits p \<Longrightarrow> feed p l = Inr p1 \<Longrightarrow> parser_fits p1"
  by (induction l arbitrary: p) (auto split: sum.splits dest: step_fits)

lemma reset_fits: "parser_fits parse_reset"
  by (simp add: parser_fits_def parse_reset_def fits_def)

lemma read_rows_fit: "parser_fits p \<Longrightarrow> read_rows p ls = Inr rs \<Longrightarrow> rows_fit rs"
proof (induction ls arbitrary: p rs)
  case Nil
  then show ?case
    by (auto simp: rows_fit_def parser_fits_def parse_save_field_def split: if_splits)
next
  case (Cons l ls)
  from Cons.prems(2) obtain p1 where f: "feed p l = Inr p1"
    by (cases "feed p l") auto
  from Cons.prems(2) f obtain p2 where e: "parse_process_char p1 None = Inr p2"
    by (cases "parse_process_char p1 None") auto
  have p2: "parser_fits p2"
    using feed_fits[OF Cons.prems(1) f] e by (rule step_fits)
  show ?case
  proof (cases "state p2 = START_RECORD")
    case True
    then obtain rs1 where r: "read_rows parse_reset ls = Inr rs1" and rs: "rs = field_list p2 # rs1"
      using Cons.prems(2) f e by (cases "read_rows parse_reset ls") auto
    have "rows_fit rs1" using reset_fits r by (rule Cons.IH)
    then show ?thesis using p2 rs by (simp add: rows_fit_def parser_fits_def)
  next
    case False
    then have "read_rows p2 ls = Inr rs" using Cons.prems(2) f e by simp
    with p2 show ?thesis by (rule Cons.IH)
  qed
qed

lemma csv_reader_fits: "csv_reader t = Inr rs \<Longrightarrow> rows_fit rs"
  unfolding csv_reader_def using reset_fits by (rule read_rows_fit)

lemma length_strip_chars: "length (strip_chars P s) \<le> length s"
proof -
  have "length (dropWhile P (rev (dropWhile P s))) \<le> length (rev (dropWhile P s))"
    by (rule length_dropWhile_le)
  also have "\<dots> \<le> length s" by (simp add: length_dropWhile_le)
  finally show ?thesis by (simp add: strip_chars_def)
qed

lemma length_sub_runs: "length (sub_runs s) \<le> length s"
proof (induction s rule: sub_runs.induct)
  case 1
  then show ?case by simp
next
  case (2 c cs)
  have "length (dropWhile (\<lambda>x. \<not> is_alnum x) cs) \<le> length cs" by (rule length_dropWhile_le)
  then show ?case using 2 by (cases "is_alnum c") auto
qed

lemma length_to_snake_case: "length (to_snake_case ul x) \<le> length x"
proof -
  let ?s = "sub_runs (remove_punct (strip x))"
  have "lower ul ?s = map ascii_lower ?s" using sub_runs_chars by (rule lower_ascii)
  then have "length (to_snake_case ul x) \<le> length ?s"
    using length_strip_chars[of "\<lambda>c. c = underscore" "map ascii_lower ?s"]
    by (simp add: to_snake_case_def)
  also have "\<dots> \<le> length (remove_punct (strip x))" by (rule length_sub_runs)
  also have "\<dots> \<le> length (strip x)" by (simp add: remove_punct_def)
  also have "\<dots> \<le> length x" unfolding strip_def by (rule length_strip_chars)
  finally show ?thesis .
qed

lemma normalised_fits: "list_all fits header \<Longrightarrow> list_all fits (map (to_snake_case ul) header)"
  using length_to_snake_case[of ul] by (auto simp: list_all_iff fits_def intro: order_trans)

lemmas csv_defs =
  csv_reader_def parse_process_char_def start_field_def parse_save_field_def parse_add_char_def
  set_state_def field_limit_def parse_reset_def comma_def dquote_def CR_def LF_def
  writerow_def writerows_def join_field_def needs_quote_def

lemma example_read:
  "csv_reader quoted_source = Inr [[cps ''A B''], [cps ''1'', cps ''2'']]"
  by (simp add: quoted_source_def csv_defs cps_def)

lemma example_file:
  "process_file (example_env catalog (serves quoted_source)) (cps ''https://x.org/new.csv'') =
     Inr (cps ''new.csv'', cps ''a_b'' @ [CR, LF] @ cps ''1,2'' @ [CR, LF])"
proof -
  have b: "list_all (\<lambda>b. b < 128) quoted_source"
    by (simp add: quoted_source_def cps_def dquote_def CR_def LF_def)
  have h: "to_snake_case (\<lambda>s. s) (cps ''A B'') = cps ''a_b''"
    by (simp add: norm_defs)
  have n: "last_segment (cps ''https://x.org/new.csv'') = cps ''new.csv''"
    by (simp add: last_segment_def cps_def)
  have w: "writerow [cps ''a_b''] @ writerows [[cps ''1'', cps ''2'']] =
      cps ''a_b'' @ [CR, LF] @ cps ''1,2'' @ [CR, LF]"
    by (simp add: csv_defs cps_def)
  have "cps ''new.csv'' \<noteq> []" by (simp add: cps_def)
  then show ?thesis
    by (simp add: process_file_def example_env_def serves_def raise_for_status_def b
        example_read h n w)
qed


lemma example_symbols_file:
  "process_file (example_env catalog (serves symbols_source)) (cps ''https://x.org/s.csv'') =
     Inr (cps ''s.csv'', cps '',name'' @ [CR, LF] @ cps ''1,2'' @ [CR, LF])"
proof -
  have b: "list_all (\<lambda>b. b < 128) symbols_source"
    by (simp add: symbols_source_def cps_def CR_def LF_def)
  have r: "csv_reader symbols_source = Inr [[cps ''???'', cps ''Name''], [cps ''1'', cps ''2'']]"
    by (simp add: symbols_source_def csv_defs cps_def)
  have h1: "to_snake_case (\<lambda>s. s) (cps ''???'') = []"
    by (simp add: norm_defs)
  have h2: "to_snake_case (\<lambda>s. s) (cps ''Name'') = cps ''name''"
    by (simp add: norm_defs)
  have n: "last_segment (cps ''https://x.org/s.csv'') = cps ''s.csv''"
    by (simp add: last_segment_def cps_def)
  have w: "writerow [[], cps ''name''] @ writerows [[cps ''1'', cps ''2'']] =
      cps '',name'' @ [CR, LF] @ cps ''1,2'' @ [CR, LF]"
    by (simp add: csv_defs cps_def)
  have "cps ''s.csv'' \<noteq> []" by (simp add: cps_def)
  then show ?thesis
    by (simp add: process_file_def example_env_def serves_def raise_for_status_def b r h1 h2 n w)
qed

text \<open>
  C3 (as amended).  For every successfully processed file, the text written is the
  CSV writer's rendering of the normalised header row followed by every data row
  the reader parsed from the source, in order; and reading the written text back
  gives exactly these rows, so no field value of a data row is changed, added or
  dropped.  The rows are written anew (minimal quoting, \<open>\r\n\<close> after each row), not
  copied from the source text.
\<close>

theorem process_file_rows:
  assumes "process_file e url = Inr (path, text)"
  shows "\<exists>resp csv_text header data_rows.
     http_get e url = Inr resp
     \<and> decode_utf8 e (content resp) = Some csv_text
     \<and> csv_reader csv_text = Inr (header # data_rows)
     \<and> path = last_segment url
     \<and> text = writerows (map (to_snake_case (unicode_lower e)) header # data_rows)
     \<and> csv_reader text = Inr (map (to_snake_case (unicode_lower e)) header # data_rows)"
proof -
  from assms obtain resp where g: "http_get e url = Inr resp"
    by (cases "http_get e url") (auto simp: process_file_def)
  from assms g have s: "raise_for_status resp = Inr ()"
    by (cases "raise_for_status resp") (auto simp: process_file_def)
  from assms g s obtain csv_text where d: "decode_utf8 e (content resp) = Some csv_text"
    by (cases "decode_utf8 e (content resp)") (auto simp: process_file_def)
  from assms g s d obtain rows where r: "csv_reader csv_text = Inr rows"
    by (cases "csv_reader csv_text") (auto simp: process_file_def)
  from assms g s d r obtain header data_rows where h: "rows = header # data_rows"
    by (cases rows) (auto simp: process_file_def)
  let ?out = "map (to_snake_case (unicode_lower e)) header # data_rows"
  from assms g s d r h have p: "path = last_segment url"
    and t: "text = writerow (map (to_snake_case (unicode_lower e)) header) @ writerows data_rows"
    by (auto simp: process_file_def Let_def split: if_splits)
  have t': "text = writerows ?out" using t by (simp add: writerows_def)
  have "rows_fit (header # data_rows)" using r h csv_reader_fits by simp
  then have "rows_fit ?out" by (simp add: rows_fit_def normalised_fits)
  then have "csv_reader text = Inr ?out" unfolding t' by (rule read_written)
  then show ?thesis using g d r h p t' by blast
qed

theorem process_file_rows_witness:
  "process_file (example_env example_catalog (serves quoted_source)) (cps ''https://x.org/new.csv'') =
     Inr (cps ''new.csv'', cps ''a_b'' @ [CR, LF] @ cps ''1,2'' @ [CR, LF])
   \<and> (\<exists>resp csv_text header data_rows.
       serves quoted_source (cps ''https://x.org/new.csv'') = Inr resp
       \<and> (if list_all (\<lambda>b. b < 128) (content resp) then Some (content resp) else None) = Some csv_text
       \<and> csv_reader csv_text = Inr (header # data_rows)
       \<and> cps ''new.csv'' = last_segment (cps ''https://x.org/new.csv'')
       \<and> cps ''a_b'' @ [CR, LF] @ cps ''1,2'' @ [CR, LF] =
           writerows (map (to_snake_case (\<lambda>s. s)) header # data_rows)
       \<and> csv_reader (cps ''a_b'' @ [CR, LF] @ cps ''1,2'' @ [CR, LF]) =
           Inr (map (to_snake_case (\<lambda>s. s)) header # data_rows))"
  using example_file [of example_catalog] process_file_rows [OF example_file [of example_catalog]]
  by (simp add: example_env_def)

text \<open>
  The claim as stated fails on a source that quotes a field: the source row
  \<open>"1",2\<close> is written as \<open>1,2\<close>, so the text after the header line is not that
  of the source.
\<close>

theorem process_file_requotes_counterexample:
  "process_file (example_env example_catalog (serves quoted_source)) (cps ''https://x.org/new.csv'') =
     Inr (cps ''new.csv'', cps ''a_b'' @ [CR, LF] @ cps ''1,2'' @ [CR, LF])
   \<and> data_text (cps ''a_b'' @ [CR, LF] @ cps ''1,2'' @ [CR, LF]) \<noteq> data_text quoted_source"
proof -
  have "data_text (cps ''a_b'' @ [CR, LF] @ cps ''1,2'' @ [CR, LF]) = cps ''1,2'' @ [CR, LF]"
    by (simp add: data_text_def cps_def CR_def LF_def)
  moreover have "data_text quoted_source = [dquote] @ cps ''1'' @ [dquote] @ cps '',2'' @ [CR, LF]"
    by (simp add: data_text_def quoted_source_def cps_def CR_def LF_def dquote_def)
  ultimately show ?thesis
    using example_file [of example_catalog] by (simp add: cps_def dquote_def)
qed

text \<open>
  C10.  The raw column name \<open>???\<close> holds no ASCII letter or digit and its
  normalisation is the empty string; a source file with this column name is
  processed successfully and the header row written for it starts with an empty
  token.
\<close>

theorem to_snake_case_empty_token:
  "to_snake_case ul (cps ''???'') = []
   \<and> process_file (example_env catalog (serves symbols_source)) (cps ''https://x.org/s.csv'') =
       Inr (cps ''s.csv'', writerows [[[], cps ''name''], [cps ''1'', cps ''2'']])"
proof -
  have "to_snake_case ul (cps ''???'') = []"
    by (simp add: norm_defs)
  moreover have "writerows [[[], cps ''name''], [cps ''1'', cps ''2'']] =
      cps '',name'' @ [CR, LF] @ cps ''1,2'' @ [CR, LF]"
    by (simp add: csv_defs cps_def)
  ultimately show ?thesis by (simp add: example_symbols_file)
qed

section \<open>Properties of the run\<close>

lemmas run_defs = cps_def example_iso_def datetime_ymd_def days_from_civil_def day_micros_def
  hospitals_theme_def descriptor_def example_catalog_def no_distribution_catalog_def
  example_ledger_def ledger_header_def naive_def

lemma main_completes:
  assumes "get_last_run_date (ledger w) = (st, Inr last_run_date)"
    and "get_file_data e METASTORE_URL = Inr all_datasets"
    and "iterate all_datasets = Inr items"
    and "filter_hospital_entries items = Inr hospital_datasets"
    and "filter_modified_entries (parse_iso e) hospital_datasets last_run_date = Inr modified_datasets"
    and "build_url_list modified_datasets = Inr url_list"
    and "(if length url_list > 0
          then collect (as_completed (completion e) (map (\<lambda>f. (f, process_file e f)) url_list))
                 (0, print (Processing (date_of last_run_date)) (w\<lparr>ledger := st\<rparr>))
          else (0, print (Processing (date_of last_run_date)) (w\<lparr>ledger := st\<rparr>))) = (n, w3)"
  shows "main e w =
     (print (Done n)
        ((print (NumberModified (length modified_datasets))
           (print (NumberHospital (length hospital_datasets))
             (print (NumberAll (length items)) w3)))
         \<lparr>ledger := update_run_metadata (today e) n (ledger w3)\<rparr>), None)"
  using assms(7) by (auto simp add: main_def assms(1-6) Let_def print_def split: if_splits)

lemma main_url_error:
  assumes "get_last_run_date (ledger w) = (st, Inr last_run_date)"
    and "get_file_data e METASTORE_URL = Inr all_datasets"
    and "iterate all_datasets = Inr items"
    and "filter_hospital_entries items = Inr hospital_datasets"
    and "filter_modified_entries (parse_iso e) hospital_datasets last_run_date = Inr modified_datasets"
    and "build_url_list modified_datasets = Inl err"
  shows "main e w = (print (Processing (date_of last_run_date)) (w\<lparr>ledger := st\<rparr>), Some err)"
  by (simp add: main_def assms Let_def)

lemma main_recency_error:
  assumes "get_last_run_date (ledger w) = (st, Inr last_run_date)"
    and "get_file_data e METASTORE_URL = Inr all_datasets"
    and "iterate all_datasets = Inr items"
    and "filter_hospital_entries items = Inr hospital_datasets"
    and "filter_modified_entries (parse_iso e) hospital_datasets last_run_date = Inl err"
  shows "main e w = (print (Processing (date_of last_run_date)) (w\<lparr>ledger := st\<rparr>), Some err)"
  by (simp add: main_def assms Let_def)

lemma collect_count:
  "fst (collect fs (n, w)) = n + int (length fs)"
  by (induction fs arbitrary: n w) (auto simp: Let_def split: sum.splits)

lemma collect_ledger:
  "ledger (snd (collect fs (n, w))) = ledger w"
  by (induction fs arbitrary: n w) (auto simp: Let_def print_def split: sum.splits)

lemma length_remove_nth:
  "i < length ys \<Longrightarrow> length (take i ys @ drop (Suc i) ys) = length ys - 1"
  by auto

lemma length_as_completed: "length (as_completed cs xs) = length xs"
proof (induction cs xs rule: as_completed.induct)
  case (3 c cs x xs)
  have "c mod length (x # xs) < length (x # xs)" by simp
  then have "length (take (c mod length (x # xs)) (x # xs) @
      drop (Suc (c mod length (x # xs))) (x # xs)) = length (x # xs) - 1"
    by (rule length_remove_nth)
  then show ?case using 3 by (simp add: Let_def)
qed simp_all

lemma build_url_list_length:
  "build_url_list ds = Inr urls \<Longrightarrow> length urls = length ds"
  by (induction ds arbitrary: urls) (auto split: sum.splits)

lemma get_last_run_date_store: "\<exists>f. fst (get_last_run_date st) = Some f"
  by (simp add: get_last_run_date_def Let_def)

lemma dispatch_count:
  assumes "(if length url_list > 0
        then collect (as_completed cs (map g url_list)) (0, w2) else (0, w2)) = (n, w3)"
  shows "n = int (length url_list) \<and> ledger w3 = ledger w2"
proof (cases "length url_list > 0")
  case True
  then have c: "collect (as_completed cs (map g url_list)) (0, w2) = (n, w3)"
    using assms by simp
  have "n = int (length url_list)"
    using collect_count[of "as_completed cs (map g url_list)" 0 w2] c
    by (simp add: length_as_completed)
  moreover have "ledger w3 = ledger w2"
    using collect_ledger[of "as_completed cs (map g url_list)" 0 w2] c by simp
  ultimately show ?thesis by simp
next
  case False
  then show ?thesis using assms by simp
qed

lemma example_cutoff: "get_last_run_date (Some example_ledger) =
   (Some example_ledger, Inr (naive (days_from_civil 2024 5 1 * day_micros)))"
  by (simp add: get_last_run_date_def read_csv_def series_max_def List.map_filter_def run_defs)

lemma example_hospital: "filter_hospital_entries
     [descriptor (JArr [JStr (cps ''Quality'')]) ''2024-06-01'' ''https://x.org/q.csv'',
           descriptor hospitals_theme ''2024-05-01'' ''https://x.org/old.csv'',
           descriptor hospitals_theme ''2024-06-01'' '' https://x.org/new.csv ''] =
   Inr [descriptor hospitals_theme ''2024-05-01'' ''https://x.org/old.csv'',
           descriptor hospitals_theme ''2024-06-01'' '' https://x.org/new.csv '']"
  by (simp add: run_defs)

lemma example_modified: "filter_modified_entries example_iso
     [descriptor hospitals_theme ''2024-05-01'' ''https://x.org/old.csv'',
           descriptor hospitals_theme ''2024-06-01'' '' https://x.org/new.csv '']
     (naive (days_from_civil 2024 5 1 * day_micros)) =
   Inr [descriptor hospitals_theme ''2024-06-01'' '' https://x.org/new.csv '']"
  by (simp add: run_defs fromisoformat_def dt_gt_def)

lemma example_urls: "build_url_list [descriptor hospitals_theme ''2024-06-01'' '' https://x.org/new.csv ''] =
   Inr [cps ''https://x.org/new.csv'']"
  by (simp add: run_defs download_url_def strip_def strip_chars_def is_space_def)


lemma example_run_served:
  "main (example_env example_catalog (serves quoted_source)) example_world =
     (\<lparr>ledger = Some (example_ledger\<lparr>records := records example_ledger @
          [\<lparr>date_cell = Some (days_from_civil 2024 6 2 * day_micros), count_cell = 1\<rparr>]\<rparr>),
       output_files = [(cps ''new.csv'', cps ''a_b'' @ [CR, LF] @ cps ''1,2'' @ [CR, LF])],
       stdout = [Processing (days_from_civil 2024 5 1), FileComplete (cps ''new.csv''),
                 NumberAll 3, NumberHospital 2, NumberModified 1, Done 1]\<rparr>, None)"
proof -
  let ?e = "example_env example_catalog (serves quoted_source)"
  have 1: "get_last_run_date (ledger example_world) =
      (Some example_ledger, Inr (naive (days_from_civil 2024 5 1 * day_micros)))"
    by (simp add: example_world_def example_cutoff)
  have 2: "get_file_data ?e METASTORE_URL = Inr example_catalog"
    by (simp add: get_file_data_def example_env_def)
  have 3: "iterate example_catalog = Inr [descriptor (JArr [JStr (cps ''Quality'')]) ''2024-06-01'' ''https://x.org/q.csv'',
           descriptor hospitals_theme ''2024-05-01'' ''https://x.org/old.csv'',
           descriptor hospitals_theme ''2024-06-01'' '' https://x.org/new.csv '']"
    by (simp add: example_catalog_def)
  have 5: "filter_modified_entries (parse_iso ?e)
     [descriptor hospitals_theme ''2024-05-01'' ''https://x.org/old.csv'',
           descriptor hospitals_theme ''2024-06-01'' '' https://x.org/new.csv '']
     (naive (days_from_civil 2024 5 1 * day_micros)) =
   Inr [descriptor hospitals_theme ''2024-06-01'' '' https://x.org/new.csv '']"
    using example_modified by (simp add: example_env_def)
  have c: "completion ?e = []" by (simp add: example_env_def)
  have 7: "(if length [cps ''https://x.org/new.csv''] > 0
          then collect (as_completed (completion ?e) (map (\<lambda>f. (f, process_file ?e f)) [cps ''https://x.org/new.csv'']))
                 (0, print (Processing (date_of (naive (days_from_civil 2024 5 1 * day_micros)))) (example_world\<lparr>ledger := Some example_ledger\<rparr>))
          else (0, print (Processing (date_of (naive (days_from_civil 2024 5 1 * day_micros)))) (example_world\<lparr>ledger := Some example_ledger\<rparr>)))
     = (1, \<lparr>ledger = Some example_ledger,
            output_files = [(cps ''new.csv'', cps ''a_b'' @ [CR, LF] @ cps ''1,2'' @ [CR, LF])],
            stdout = [Processing (days_from_civil 2024 5 1), FileComplete (cps ''new.csv'')]\<rparr>)"
    by (simp add: c example_file print_def example_world_def date_of_def naive_def day_micros_def)
  show ?thesis
    unfolding main_completes [OF 1 2 3 example_hospital 5 example_urls 7]
    by (simp add: print_def update_run_metadata_def example_env_def naive_def date_of_def day_micros_def days_from_civil_def)
qed


text \<open>
  C9.  Whenever the run returns normally (that is, whenever it reaches the ledger
  update), the ledger afterwards is the ledger read at the start with one more row:
  today's date and, as processed count, the number of descriptors that passed both
  filters, which is the number of download URLs dispatched.  This holds for every
  environment, whatever the downloads did.
\<close>

theorem main_ledger_count:
  assumes "main e w = (w', None)"
  shows "\<exists>f last_run_date all_datasets items hospital_datasets modified_datasets url_list.
     get_last_run_date (ledger w) = (Some f, Inr last_run_date)
     \<and> get_file_data e METASTORE_URL = Inr all_datasets
     \<and> iterate all_datasets = Inr items
     \<and> filter_hospital_entries items = Inr hospital_datasets
     \<and> filter_modified_entries (parse_iso e) hospital_datasets last_run_date = Inr modified_datasets
     \<and> build_url_list modified_datasets = Inr url_list
     \<and> length url_list = length modified_datasets
     \<and> ledger w' =
         Some (f\<lparr>records := records f @
            [\<lparr>date_cell = Some (date_of (today e) * day_micros),
              count_cell = int (length modified_datasets)\<rparr>]\<rparr>)"
proof -
  obtain st r where g: "get_last_run_date (ledger w) = (st, r)" by (cases "get_last_run_date (ledger w)")
  obtain f where st: "st = Some f" using get_last_run_date_store[of "ledger w"] g by auto
  from assms g obtain last_run_date where r: "r = Inr last_run_date"
    by (cases r) (auto simp: main_def Let_def)
  let ?w2 = "print (Processing (date_of last_run_date)) (w\<lparr>ledger := st\<rparr>)"
  from assms g r obtain all_datasets where a: "get_file_data e METASTORE_URL = Inr all_datasets"
    by (cases "get_file_data e METASTORE_URL") (auto simp: main_def Let_def)
  from assms g r a obtain items where i: "iterate all_datasets = Inr items"
    by (cases "iterate all_datasets") (auto simp: main_def Let_def)
  from assms g r a i obtain hospital_datasets where h: "filter_hospital_entries items = Inr hospital_datasets"
    by (cases "filter_hospital_entries items") (auto simp: main_def Let_def)
  from assms g r a i h obtain modified_datasets where
    m: "filter_modified_entries (parse_iso e) hospital_datasets last_run_date = Inr modified_datasets"
    by (cases "filter_modified_entries (parse_iso e) hospital_datasets last_run_date")
      (auto simp: main_def Let_def)
  from assms g r a i h m obtain url_list where u: "build_url_list modified_datasets = Inr url_list"
    by (cases "build_url_list modified_datasets") (auto simp: main_def Let_def)
  have len: "length url_list = length modified_datasets" using u by (rule build_url_list_length)
  obtain n w3 where c: "(if length url_list > 0
        then collect (as_completed (completion e) (map (\<lambda>f. (f, process_file e f)) url_list)) (0, ?w2)
        else (0, ?w2)) = (n, w3)"
    by (cases "(if length url_list > 0
        then collect (as_completed (completion e) (map (\<lambda>f. (f, process_file e f)) url_list)) (0, ?w2)
        else (0, ?w2))")
  from dispatch_count[OF c] have n: "n = int (length url_list)" and l3: "ledger w3 = st"
    by (simp_all add: print_def)
  have "main e w =
     (print (Done n)
        ((print (NumberModified (length modified_datasets))
           (print (NumberHospital (length hospital_datasets))
             (print (NumberAll (length items)) w3)))
         \<lparr>ledger := update_run_metadata (today e) n (ledger w3)\<rparr>), None)"
    using g[unfolded r] a i h m u c by (rule main_completes)
  then have "ledger w' = update_run_metadata (today e) n (ledger w3)"
    using assms by (auto simp: print_def)
  then have "ledger w' = Some (f\<lparr>records := records f @
            [\<lparr>date_cell = Some (date_of (today e) * day_micros),
              count_cell = int (length modified_datasets)\<rparr>]\<rparr>)"
    by (simp add: l3 st n len update_run_metadata_def)
  then show ?thesis using g r st a i h m u len by blast
qed

theorem main_ledger_count_witness:
  "main (example_env example_catalog (serves quoted_source)) example_world =
     (\<lparr>ledger = Some (example_ledger\<lparr>records := records example_ledger @
          [\<lparr>date_cell = Some (days_from_civil 2024 6 2 * day_micros), count_cell = 1\<rparr>]\<rparr>),
       output_files = [(cps ''new.csv'', cps ''a_b'' @ [CR, LF] @ cps ''1,2'' @ [CR, LF])],
       stdout = [Processing (days_from_civil 2024 5 1), FileComplete (cps ''new.csv''),
                 NumberAll 3, NumberHospital 2, NumberModified 1, Done 1]\<rparr>, None)
   \<and> (\<exists>f last_run_date all_datasets items hospital_datasets modified_datasets url_list.
       get_last_run_date (ledger example_world) = (Some f, Inr last_run_date)
       \<and> get_file_data (example_env example_catalog (serves quoted_source)) METASTORE_URL = Inr all_datasets
       \<and> iterate all_datasets = Inr items
       \<and> filter_hospital_entries items = Inr hospital_datasets
       \<and> filter_modified_entries example_iso hospital_datasets last_run_date = Inr modified_datasets
       \<and> build_url_list modified_datasets = Inr url_list
       \<and> length url_list = length modified_datasets
       \<and> Some (example_ledger\<lparr>records := records example_ledger @
            [\<lparr>date_cell = Some (days_from_civil 2024 6 2 * day_micros), count_cell = 1\<rparr>]\<rparr>) =
          Some (f\<lparr>records := records f @
            [\<lparr>date_cell = Some (days_from_civil 2024 6 2 * day_micros),
              count_cell = int (length modified_datasets)\<rparr>]\<rparr>))"
  using example_run_served main_ledger_count [OF example_run_served]
  by (simp add: example_env_def naive_def date_of_def day_micros_def)

text \<open>
  C1.  The code at the failing input: one download is dispatched and it fails, the
  failure is printed, and the row appended to the ledger has the processed count 1.
  The counter is incremented before \<open>future.result()\<close> is called, so a failed worker
  is counted.
\<close>

theorem main_counts_failed_download:
  "main (example_env example_catalog unreachable) example_world =
     (\<lparr>ledger = Some (example_ledger\<lparr>records := records example_ledger @
          [\<lparr>date_cell = Some (days_from_civil 2024 6 2 * day_micros), count_cell = 1\<rparr>]\<rparr>),
       output_files = [],
       stdout = [Processing (days_from_civil 2024 5 1),
                 ErrorProcessing (cps ''https://x.org/new.csv'') ConnectionError,
                 NumberAll 3, NumberHospital 2, NumberModified 1, Done 1]\<rparr>, None)"
proof -
  let ?e = "example_env example_catalog unreachable"
  have 1: "get_last_run_date (ledger example_world) =
      (Some example_ledger, Inr (naive (days_from_civil 2024 5 1 * day_micros)))"
    by (simp add: example_world_def example_cutoff)
  have 2: "get_file_data ?e METASTORE_URL = Inr example_catalog"
    by (simp add: get_file_data_def example_env_def)
  have 3: "iterate example_catalog = Inr [descriptor (JArr [JStr (cps ''Quality'')]) ''2024-06-01'' ''https://x.org/q.csv'',
           descriptor hospitals_theme ''2024-05-01'' ''https://x.org/old.csv'',
           descriptor hospitals_theme ''2024-06-01'' '' https://x.org/new.csv '']"
    by (simp add: example_catalog_def)
  have 5: "filter_modified_entries (parse_iso ?e)
     [descriptor hospitals_theme ''2024-05-01'' ''https://x.org/old.csv'',
           descriptor hospitals_theme ''2024-06-01'' '' https://x.org/new.csv '']
     (naive (days_from_civil 2024 5 1 * day_micros)) =
   Inr [descriptor hospitals_theme ''2024-06-01'' '' https://x.org/new.csv '']"
    using example_modified by (simp add: example_env_def)
  have 7: "(if length [cps ''https://x.org/new.csv''] > 0
          then collect (as_completed (completion ?e) (map (\<lambda>f. (f, process_file ?e f)) [cps ''https://x.org/new.csv'']))
                 (0, print (Processing (date_of (naive (days_from_civil 2024 5 1 * day_micros)))) (example_world\<lparr>ledger := Some example_ledger\<rparr>))
          else (0, print (Processing (date_of (naive (days_from_civil 2024 5 1 * day_micros)))) (example_world\<lparr>ledger := Some example_ledger\<rparr>)))
     = (1, \<lparr>ledger = Some example_ledger, output_files = [],
            stdout = [Processing (days_from_civil 2024 5 1),
              ErrorProcessing (cps ''https://x.org/new.csv'') ConnectionError]\<rparr>)"
    by (simp add: example_env_def process_file_def unreachable_def print_def example_world_def
        date_of_def naive_def day_micros_def)
  show ?thesis
    unfolding main_completes [OF 1 2 3 example_hospital 5 example_urls 7]
    by (simp add: print_def update_run_metadata_def example_env_def naive_def date_of_def day_micros_def days_from_civil_def)
qed

text \<open>
  C2.  The code at the failing input: the one descriptor of the catalog passes both
  filters and has no distribution field; the \<open>KeyError\<close> of the URL extraction
  leaves \<open>main\<close>, and the ledger (just created) receives no row.
\<close>

theorem main_aborts_without_distribution:
  "main (example_env no_distribution_catalog unreachable) fresh_world =
     (\<lparr>ledger = Some \<lparr>header_line = ledger_header, records = []\<rparr>,
       output_files = [], stdout = [Processing (days_from_civil 1900 1 1)]\<rparr>, Some KeyError)"
proof -
  let ?e = "example_env no_distribution_catalog unreachable"
  let ?d = "JObj [(cps ''theme'', hospitals_theme), (cps ''modified'', JStr (cps ''2024-06-01''))]"
  have 1: "get_last_run_date (ledger fresh_world) =
      (Some \<lparr>header_line = ledger_header, records = []\<rparr>, Inr (datetime_ymd 1900 1 1))"
    by (simp add: fresh_world_def cutoff_absent)
  have 2: "get_file_data ?e METASTORE_URL = Inr no_distribution_catalog"
    by (simp add: get_file_data_def example_env_def)
  have 3: "iterate no_distribution_catalog = Inr [?d]"
    by (simp add: no_distribution_catalog_def)
  have 4: "filter_hospital_entries [?d] = Inr [?d]"
    by (simp add: run_defs)
  have 5: "filter_modified_entries (parse_iso ?e) [?d] (datetime_ymd 1900 1 1) = Inr [?d]"
    by (simp add: example_env_def run_defs fromisoformat_def dt_gt_def)
  have 6: "build_url_list [?d] = Inl KeyError"
    by (simp add: download_url_def run_defs)
  show ?thesis
    unfolding main_url_error [OF 1 2 3 4 5 6]
    by (simp add: print_def fresh_world_def date_of_def datetime_ymd_def day_micros_def)
qed

text \<open>
  C5.  The code at the failing input: the descriptor's modified value
  \<open>2024-06-01T00:00:00+00:00\<close> parses, to a timezone-aware timestamp later than
  the cutoff 1900-01-01 that a new ledger gives, so the claim has the descriptor
  retained.  The comparison \<open>mod > last_run_date\<close> stands after the \<open>try\<close>, its
  \<open>TypeError\<close> (aware against naive) leaves the filter, which returns no list, and
  in a run it leaves \<open>main\<close> before any ledger row is written.
\<close>

theorem filter_modified_entries_aware_raises:
  "snd (get_last_run_date None) = Inr (datetime_ymd 1900 1 1)
   \<and> modified_of example_iso aware_descriptor =
       Some \<lparr>micros = days_from_civil 2024 6 1 * day_micros, utcoffset = Some 0\<rparr>
   \<and> modified_after example_iso (datetime_ymd 1900 1 1) aware_descriptor
   \<and> filter_modified_entries example_iso [aware_descriptor] (datetime_ymd 1900 1 1) = Inl TypeError
   \<and> main (example_env aware_catalog unreachable) fresh_world =
       (\<lparr>ledger = Some \<lparr>header_line = ledger_header, records = []\<rparr>,
         output_files = [], stdout = [Processing (days_from_civil 1900 1 1)]\<rparr>, Some TypeError)"
proof -
  let ?e = "example_env aware_catalog unreachable"
  let ?d = "descriptor hospitals_theme ''2024-06-01T00:00:00+00:00'' ''https://x.org/new.csv''"
  have c: "snd (get_last_run_date None) = Inr (datetime_ymd 1900 1 1)"
    by (simp add: cutoff_absent)
  have p: "modified_of example_iso aware_descriptor =
      Some \<lparr>micros = days_from_civil 2024 6 1 * day_micros, utcoffset = Some 0\<rparr>"
    by (simp add: modified_of_def aware_descriptor_def example_iso_def cps_def)
  have a: "modified_after example_iso (datetime_ymd 1900 1 1) aware_descriptor"
    by (simp add: example_defs)
  have f: "filter_modified_entries example_iso [aware_descriptor] (datetime_ymd 1900 1 1) =
      Inl TypeError"
    by (simp add: example_defs fromisoformat_def dt_gt_def)
  have 1: "get_last_run_date (ledger fresh_world) =
      (Some \<lparr>header_line = ledger_header, records = []\<rparr>, Inr (datetime_ymd 1900 1 1))"
    by (simp add: fresh_world_def cutoff_absent)
  have 2: "get_file_data ?e METASTORE_URL = Inr aware_catalog"
    by (simp add: get_file_data_def example_env_def)
  have 3: "iterate aware_catalog = Inr [?d]"
    by (simp add: aware_catalog_def)
  have 4: "filter_hospital_entries [?d] = Inr [?d]"
    by (simp add: run_defs)
  have 5: "filter_modified_entries (parse_iso ?e) [?d] (datetime_ymd 1900 1 1) = Inl TypeError"
    by (simp add: example_env_def run_defs fromisoformat_def dt_gt_def)
  have m: "main ?e fresh_world =
      (\<lparr>ledger = Some \<lparr>header_line = ledger_header, records = []\<rparr>,
        output_files = [], stdout = [Processing (days_from_civil 1900 1 1)]\<rparr>, Some TypeError)"
    unfolding main_recency_error [OF 1 2 3 4 5]
    by (simp add: print_def fresh_world_def date_of_def datetime_ymd_def day_micros_def)
  show ?thesis using c p a f m by simp
qed

end
